theory Spec2Isabelle
  imports Main "HOL-Library.Char_ord" "HOL-Library.List_Lexorder" "HOL-Library.Multiset"
    "HOL-Library.Sublist"
begin

section \<open>The C library functions the two programs call\<close>

text \<open>
  The two programs, \<^verbatim>\<open>parse_theses.c\<close> and \<^verbatim>\<open>parse_theses_year.c\<close>, keep every text in a
  \<^verbatim>\<open>char\<close> buffer of \<^verbatim>\<open>STRLEN\<close> bytes. A buffer that holds a string is modelled by the bytes
  before its terminating NUL, a \<^typ>\<open>string\<close> without NUL (\<open>cstring\<close>). A buffer that was never
  written is indeterminate; it is modelled by \<open>None\<close> (see \<open>uninit\<close> below).
\<close>

definition NUL :: char where
  "NUL = CHR 0x00"

definition NL :: char where
  "NL = CHR 0x0A"

definition CR :: char where
  "CR = CHR 0x0D"

definition cstring :: "string \<Rightarrow> bool" where
  "cstring s \<longleftrightarrow> NUL \<notin> set s"

text \<open>
  \<open>c_str bs\<close> is the string that a buffer beginning with the bytes \<open>bs\<close> followed by NUL holds:
  it ends at the first NUL.
\<close>

definition c_str :: "char list \<Rightarrow> string" where
  "c_str bs = takeWhile (\<lambda>c. c \<noteq> NUL) bs"

text \<open>
  The value of a plain \<^verbatim>\<open>char\<close> as an \<^verbatim>\<open>int\<close>. Plain \<^verbatim>\<open>char\<close> is taken as signed, as gcc has
  it on x86: a byte from 128 on is a negative \<^verbatim>\<open>int\<close>. Only the comparison of a first letter
  with a bucket's letter in \<open>write_html\<close> depends on this, and only for bytes from 128 on.
\<close>

definition char_int :: "char \<Rightarrow> int" where
  "char_int c = (if (of_char c :: int) < 128 then of_char c else of_char c - 256)"

definition int_char :: "int \<Rightarrow> char" where
  "int_char n = char_of n"

text \<open>
  \<^verbatim>\<open>toupper\<close> in the "C" locale (neither program calls \<^verbatim>\<open>setlocale\<close>), as the GNU C library
  has it. Both programs pass it a plain \<^verbatim>\<open>char\<close>, so a byte from 128 on arrives as a negative
  argument, for which the C standard leaves the result open. The library looks the
  arguments from -128 to 255 up in a table whose entries for -128 to -2 are the bytes 128 to
  254 that these arguments stand for, and whose entry for -1 (\<^verbatim>\<open>EOF\<close>) is -1; every other
  argument is returned as it is.
\<close>

definition toupper :: "int \<Rightarrow> int" where
  "toupper c =
    (if 97 \<le> c \<and> c \<le> 122 then c - 32
     else if - 128 \<le> c \<and> c < - 1 then c + 256
     else c)"

text \<open>
  \<^verbatim>\<open>strcmp\<close> compares the bytes as \<^verbatim>\<open>unsigned char\<close>; the end of a string is the byte 0.
  The C standard fixes the sign of the result only; the difference of the first two bytes
  that differ is what the usual implementations return, and the theorems below use the
  sign only.
\<close>

fun strcmp :: "string \<Rightarrow> string \<Rightarrow> int" where
  "strcmp [] [] = 0"
| "strcmp [] (y # ys) = - of_char y"
| "strcmp (x # xs) [] = of_char x"
| "strcmp (x # xs) (y # ys) = (if x = y then strcmp xs ys else of_char x - of_char y)"

definition strcspn :: "string \<Rightarrow> string \<Rightarrow> nat" where
  "strcspn s reject = length (takeWhile (\<lambda>c. c \<notin> set reject) s)"

text \<open>The decimal digits that \<^verbatim>\<open>%d\<close> prints.\<close>

fun digits :: "nat \<Rightarrow> string" where
  "digits n = (if n < 10 then [char_of (48 + n)] else digits (n div 10) @ [char_of (48 + n mod 10)])"

definition printf_d :: "int \<Rightarrow> string" where
  "printf_d n = (if n < 0 then CHR ''-'' # digits (nat (- n)) else digits (nat n))"

section \<open>The data model\<close>

definition STRLEN :: nat where
  "STRLEN = 512"

definition MAX_DOC :: nat where
  "MAX_DOC = 500"

text \<open>
  \<^verbatim>\<open>struct thesis\<close>: seven buffers of \<^verbatim>\<open>STRLEN\<close> bytes. The record is polymorphic in what a
  buffer holds: a \<open>string thesis\<close> is a struct all of whose buffers hold strings, a
  \<open>string option thesis\<close> is a struct in memory, where a buffer may be indeterminate.
\<close>

record 'buf thesis =
  author :: 'buf
  year :: 'buf
  title :: 'buf
  advisor :: 'buf
  affiliation :: 'buf
  degree :: 'buf
  url :: 'buf

definition wf_thesis :: "string thesis \<Rightarrow> bool" where
  "wf_thesis t \<longleftrightarrow> cstring (author t) \<and> cstring (year t) \<and> cstring (title t)
     \<and> cstring (advisor t) \<and> cstring (affiliation t) \<and> cstring (degree t) \<and> cstring (url t)"

section \<open>The comparators\<close>

text \<open>
  \<^verbatim>\<open>strcpy(author1, t->author); author1[0] = toupper(author1[0]);\<close> on a local buffer. The
  first byte of an empty string is its NUL, which \<^verbatim>\<open>toupper\<close> leaves as it is.
\<close>

definition toupper_first :: "string \<Rightarrow> string" where
  "toupper_first s = (case s of [] \<Rightarrow> [] | c # cs \<Rightarrow> int_char (toupper (char_int c)) # cs)"

text \<open>
  \<^verbatim>\<open>compare\<close> of \<^verbatim>\<open>parse_theses.c\<close>. Its arguments are pointers to \<^verbatim>\<open>struct thesis\<close>: a pointer
  is modelled by its address and the struct it points to. \<^verbatim>\<open>t1->year\<close> is an array, so in
  \<^verbatim>\<open>t1->year < t2->year\<close> it stands for the address of the \<^verbatim>\<open>year\<close> buffer, which lies
  \<^verbatim>\<open>STRLEN\<close> bytes (the \<^verbatim>\<open>author\<close> buffer) after the start of the struct.
\<close>

definition year_ptr :: "nat \<Rightarrow> nat" where
  "year_ptr p = p + STRLEN"

definition compare :: "nat \<times> string thesis \<Rightarrow> nat \<times> string thesis \<Rightarrow> int" where
  "compare s1 s2 =
    (let author1 = toupper_first (author (snd s1));
         author2 = toupper_first (author (snd s2));
         authorcompare = strcmp author1 author2
     in if authorcompare = 0 then
          (if year_ptr (fst s1) < year_ptr (fst s2) then - 1
           else if year_ptr (fst s1) > year_ptr (fst s2) then 1
           else 0)
        else authorcompare)"

text \<open>\<^verbatim>\<open>compare\<close> of \<^verbatim>\<open>parse_theses_year.c\<close>; it reads the two structs only.\<close>

definition compare_year :: "string thesis \<Rightarrow> string thesis \<Rightarrow> int" where
  "compare_year t1 t2 =
    (let yearcompare = strcmp (year t2) (year t1)
     in if yearcompare = 0 then
          (let author1 = toupper_first (author t1);
               author2 = toupper_first (author t2);
               authorcompare = strcmp author1 author2
           in authorcompare)
        else yearcompare)"

subsection \<open>The orders as the specification words them\<close>

text \<open>
  The order \<open><\<close> on \<^typ>\<open>string\<close> is the lexicographic order of the bytes (\<open>Char_ord\<close> orders
  characters by their byte value, \<open>List_Lexorder\<close> lifts it to lists): the comparison "as raw
  byte strings". \<open>first_upper\<close> is the case normalisation: the first character uppercased.
\<close>

definition upper_char :: "char \<Rightarrow> char" where
  "upper_char c = (if CHR ''a'' \<le> c \<and> c \<le> CHR ''z'' then char_of (of_char c - (32::nat)) else c)"

definition first_upper :: "string \<Rightarrow> string" where
  "first_upper s = (case s of [] \<Rightarrow> [] | c # cs \<Rightarrow> upper_char c # cs)"

definition year_primary_less :: "string thesis \<Rightarrow> string thesis \<Rightarrow> bool" where
  "year_primary_less a b \<longleftrightarrow>
     year b < year a \<or> (year a = year b \<and> first_upper (author a) < first_upper (author b))"

definition author_primary_less :: "string thesis \<Rightarrow> string thesis \<Rightarrow> bool" where
  "author_primary_less a b \<longleftrightarrow>
     first_upper (author a) < first_upper (author b)
       \<or> (first_upper (author a) = first_upper (author b) \<and> year a < year b)"

section \<open>Memory\<close>

text \<open>
  What can go wrong when the programs touch memory: a read through a null pointer, an
  access past the end of an array, and a read of a buffer that was never written.
\<close>

datatype fault = NullDereference | OutOfBounds | IndeterminateRead

text \<open>
  A struct as \<^verbatim>\<open>malloc\<close>, \<^verbatim>\<open>realloc\<close> or an uninitialised local array deliver it, and a
  struct whose seven buffers hold the strings of a record.
\<close>

definition uninit :: "string option thesis" where
  "uninit = \<lparr>author = None, year = None, title = None, advisor = None, affiliation = None,
     degree = None, url = None\<rparr>"

definition stored :: "string thesis \<Rightarrow> string option thesis" where
  "stored t = \<lparr>author = Some (author t), year = Some (year t), title = Some (title t),
     advisor = Some (advisor t), affiliation = Some (affiliation t), degree = Some (degree t),
     url = Some (url t)\<rparr>"

text \<open>Both allocation functions are taken to succeed; the programs do not check them.\<close>

definition malloc :: "nat \<Rightarrow> string option thesis list" where
  "malloc n = replicate n uninit"

definition realloc :: "string option thesis list \<Rightarrow> nat \<Rightarrow> string option thesis list" where
  "realloc a n = take n a @ replicate (n - length a) uninit"

text \<open>Reading all seven strings of a struct, and reading the struct \<^verbatim>\<open>entry[i]\<close> of an array.\<close>

definition load :: "string option thesis \<Rightarrow> fault + string thesis" where
  "load m =
    (if author m = None \<or> year m = None \<or> title m = None \<or> advisor m = None
        \<or> affiliation m = None \<or> degree m = None \<or> url m = None
     then Inl IndeterminateRead
     else Inr \<lparr>author = the (author m), year = the (year m), title = the (title m),
            advisor = the (advisor m), affiliation = the (affiliation m),
            degree = the (degree m), url = the (url m)\<rparr>)"

definition element :: "string option thesis list \<Rightarrow> nat \<Rightarrow> fault + string thesis" where
  "element entry i = (if i < length entry then load (entry ! i) else Inl OutOfBounds)"

text \<open>\<^verbatim>\<open>s[0]\<close> of a buffer that holds the string \<open>s\<close>: the NUL when the string is empty.\<close>

definition first_byte :: "string \<Rightarrow> char" where
  "first_byte s = (case s of [] \<Rightarrow> NUL | c # cs \<Rightarrow> c)"

section \<open>The parsers\<close>

text \<open>
  \<^verbatim>\<open>fgets(line, n, fp)\<close> stores the next bytes of the file, up to and including the first
  newline but at most \<open>n - 1\<close> of them, and a NUL after them; it returns \<^verbatim>\<open>NULL\<close> when no byte
  is left. \<open>fgets n bs\<close> is what one call stores before the NUL from the remaining bytes
  \<open>bs\<close> of the file, and the bytes that remain after it. \<open>reads bs\<close> is the list of what the
  calls \<^verbatim>\<open>fgets(line, STRLEN, fp)\<close> of the loop \<^verbatim>\<open>while (fgets(...) != NULL)\<close> store from a
  file of the bytes \<open>bs\<close>, one element per call: a read.
\<close>

fun fgets :: "nat \<Rightarrow> char list \<Rightarrow> char list \<times> char list" where
  "fgets n [] = ([], [])"
| "fgets n (c # cs) =
    (if n \<le> 1 then ([], c # cs)
     else if c = NL then ([c], cs)
     else (c # fst (fgets (n - 1) cs), snd (fgets (n - 1) cs)))"

function reads :: "char list \<Rightarrow> char list list" where
  "reads bs = (if bs = [] then [] else fst (fgets STRLEN bs) # reads (snd (fgets STRLEN bs)))"
  by pat_completeness auto
termination
proof (relation "measure length")
  show "wf (measure length)" by simp
next
  fix bs :: "char list"
  assume "bs \<noteq> []"
  have less: "2 \<le> n \<Longrightarrow> cs \<noteq> [] \<Longrightarrow> length (snd (fgets n cs)) < length cs" for n cs
  proof (induction n cs rule: fgets.induct)
    case (1 n)
    then show ?case by simp
  next
    case (2 n c cs)
    show ?case
    proof (cases "cs = [] \<or> c = NL \<or> n - 1 \<le> 1")
      case True
      with "2.prems" show ?thesis by (cases cs) auto
    next
      case False
      with 2 have "length (snd (fgets (n - 1) cs)) < length cs" by simp
      with False "2.prems" show ?thesis by simp
    qed
  qed
  from less [of STRLEN bs] \<open>bs \<noteq> []\<close>
  show "(snd (fgets STRLEN bs), bs) \<in> measure length" by (simp add: STRLEN_def)
qed

text \<open>
  The open file \<^verbatim>\<open>fp\<close> of the parsers is modelled by the list of its reads; the call after
  the last one returns \<^verbatim>\<open>NULL\<close>. A line of the file, with its line terminator, is one read
  when it has fewer than \<^verbatim>\<open>STRLEN\<close> bytes; a longer line is delivered in more than one read
  (\<open>reads_lines\<close> and \<open>reads_long_line\<close> below). \<^verbatim>\<open>line[strcspn(line, "\r\n")] = 0\<close> cuts the
  string in \<^verbatim>\<open>line\<close> at its first carriage return or newline.
\<close>

definition trim :: "char list \<Rightarrow> string" where
  "trim raw = (let line = c_str raw in take (strcspn line [CR, NL]) line)"

text \<open>\<^verbatim>\<open>strcpy(entry[cnt].FIELD, line)\<close> for the field of position \<open>i\<close>, on the struct.\<close>

definition set_field :: "nat \<Rightarrow> string \<Rightarrow> string option thesis \<Rightarrow> string option thesis" where
  "set_field i line t =
    (if i = 0 then t\<lparr>author := Some line\<rparr>
     else if i = 1 then t\<lparr>year := Some line\<rparr>
     else if i = 2 then t\<lparr>title := Some line\<rparr>
     else if i = 3 then t\<lparr>advisor := Some line\<rparr>
     else if i = 4 then t\<lparr>affiliation := Some line\<rparr>
     else if i = 5 then t\<lparr>degree := Some line\<rparr>
     else if i = 6 then t\<lparr>url := Some line\<rparr>
     else t)"

text \<open>
  The \<^verbatim>\<open>switch (i)\<close> of both parsers: cases 0 to 6 write a field of \<^verbatim>\<open>entry[cnt]\<close>, case 6
  counts the record, and no case stands for 7. It returns the array and the count.
\<close>

definition assign :: "nat \<Rightarrow> nat \<Rightarrow> string \<Rightarrow> string option thesis list
    \<Rightarrow> fault + (string option thesis list \<times> nat)" where
  "assign i cnt line entry =
    (if 6 < i then Inr (entry, cnt)
     else if length entry \<le> cnt then Inl OutOfBounds
     else Inr (entry[cnt := set_field i line (entry ! cnt)], if i = 6 then cnt + 1 else cnt))"

text \<open>\<^verbatim>\<open>i++; if (i == 8) i=0;\<close>\<close>

definition advance :: "nat \<Rightarrow> nat" where
  "advance i = (if i + 1 = 8 then 0 else i + 1)"

definition too_many :: string where
  "too_many = ''Too many entries, need to increase MAX_DOC'' @ [NL]"

text \<open>
  \<^verbatim>\<open>parse_text\<close> of \<^verbatim>\<open>parse_theses.c\<close>: the loop over the lines with its locals \<open>i\<close> and \<open>cnt\<close>
  and the caller's array. The result is the returned \<^verbatim>\<open>int\<close>, the array and what was
  written to \<^verbatim>\<open>stderr\<close>.
\<close>

fun parse_loop :: "nat \<Rightarrow> nat \<Rightarrow> string option thesis list \<Rightarrow> char list list
    \<Rightarrow> fault + (int \<times> string option thesis list \<times> string list)" where
  "parse_loop i cnt entry [] = Inr (int cnt, entry, [])"
| "parse_loop i cnt entry (raw # fp) =
    (case assign i cnt (trim raw) entry of
       Inl f \<Rightarrow> Inl f
     | Inr (entry', cnt') \<Rightarrow>
         if cnt' \<ge> MAX_DOC then Inr (- 1, entry', [too_many])
         else parse_loop (advance i) cnt' entry' fp)"

definition parse_text :: "char list list \<Rightarrow> string option thesis list
    \<Rightarrow> fault + (int \<times> string option thesis list \<times> string list)" where
  "parse_text fp entry = parse_loop 0 0 entry fp"

text \<open>
  \<^verbatim>\<open>parse_text\<close> of \<^verbatim>\<open>parse_theses_year.c\<close>: \<open>entry\<close> is a pointer, \<open>None\<close> for \<^verbatim>\<open>NULL\<close>, and
  case 0 allocates the struct it writes. The result is the returned pointer and \<^verbatim>\<open>*num\<close>.
\<close>

fun parse_loop_year :: "nat \<Rightarrow> nat \<Rightarrow> string option thesis list option \<Rightarrow> char list list
    \<Rightarrow> fault + (string option thesis list option \<times> int)" where
  "parse_loop_year i cnt entry [] = Inr (entry, int cnt)"
| "parse_loop_year i cnt entry (raw # fp) =
    (let entry1 = (if i = 0
                   then (case entry of None \<Rightarrow> Some (malloc 1)
                         | Some a \<Rightarrow> Some (realloc a (cnt + 1)))
                   else entry)
     in if 6 < i then parse_loop_year (advance i) cnt entry1 fp
        else (case entry1 of
                None \<Rightarrow> Inl NullDereference
              | Some a \<Rightarrow>
                  (case assign i cnt (trim raw) a of
                     Inl f \<Rightarrow> Inl f
                   | Inr (a', cnt') \<Rightarrow> parse_loop_year (advance i) cnt' (Some a') fp)))"

definition parse_text_year :: "char list list
    \<Rightarrow> fault + (string option thesis list option \<times> int)" where
  "parse_text_year fp = parse_loop_year 0 0 None fp"

section \<open>The renderers\<close>

text \<open>
  \<^verbatim>\<open>stdout\<close> is the list of the texts written to it, one element per \<^verbatim>\<open>fprintf\<close> call, in
  the order of the calls; the bytes of the output are their concatenation. The per-record
  table is the same code in both programs.
\<close>

definition begin_marker :: string where
  \<open>begin_marker = ''<!-- *** BEGIN THESIS/DISSERTATION CONTENT HERE *** --!>'' @ [NL]\<close>

definition div_open :: string where
  \<open>div_open = ''<div align="center">'' @ [NL, NL]\<close>

definition table_open :: string where
  \<open>table_open = ''  <table style="border:1px solid black; width:600px;">'' @ [NL]\<close>

definition row :: "string \<Rightarrow> string \<Rightarrow> string" where
  \<open>row label s = ''    <tr><td><b>'' @ label @ '':</b> '' @ s @ ''</td></tr>'' @ [NL]\<close>

definition degree_cell :: "string \<Rightarrow> string" where
  \<open>degree_cell s = ''    <tr><td><b>Degree:</b> '' @ s @ ''</td>''\<close>

definition row_end :: string where
  \<open>row_end = ''</tr>'' @ [NL]\<close>

definition url_cell :: "string \<Rightarrow> string" where
  \<open>url_cell s =
     ''<td align="right"><a href="'' @ s @ ''" target="_blank">URL</a></td></tr>'' @ [NL]\<close>

definition table_close :: string where
  \<open>table_close = ''  </table><br>'' @ [NL, NL]\<close>

definition table_html :: "string thesis \<Rightarrow> string list" where
  "table_html t =
    [table_open,
     row ''Author'' (author t),
     row ''Year'' (year t),
     row ''Title'' (title t),
     row ''Advisor'' (advisor t),
     row ''Affiliation'' (affiliation t),
     degree_cell (degree t),
     if first_byte (url t) = NUL then row_end else url_cell (url t),
     table_close]"

definition summary :: "int \<Rightarrow> int \<Rightarrow> int \<Rightarrow> string list" where
  \<open>summary cnt ms_cnt phd_cnt =
    [''  <center>Number of items: <b>'' @ printf_d cnt @ ''</b></center>'' @ [NL],
     ''  <center>('' @ printf_d ms_cnt @ '' MS | '' @ printf_d phd_cnt @ '' PhD)</center>''
        @ [NL, NL],
     ''</div>'' @ [NL],
     ''<!-- *** END THESIS/DISSERTATION CONTENT HERE *** --!>'' @ [NL]]\<close>

text \<open>The two counters \<open>(ms_cnt, phd_cnt)\<close> and their update for one record.\<close>

definition count_degree :: "string \<Rightarrow> int \<times> int \<Rightarrow> int \<times> int" where
  "count_degree d c =
    (if strcmp d ''MS'' = 0 then (fst c + 1, snd c)
     else if strcmp d ''PhD'' = 0 then (fst c, snd c + 1)
     else c)"

subsection \<open>\<^verbatim>\<open>write_html\<close> of \<^verbatim>\<open>parse_theses.c\<close>\<close>

definition alph :: "string list" where
  "alph = [''A-G'', ''H-N'', ''O-U'', ''V-Z'']"

definition jump_link :: "string \<Rightarrow> string" where
  \<open>jump_link a = ''  <a href="#'' @ a @ ''">'' @ a @ ''</a>&nbsp;|'' @ [NL]\<close>

definition jump_link_last :: "string \<Rightarrow> string" where
  \<open>jump_link_last a = ''  <a href="#'' @ a @ ''">'' @ a @ ''</a>'' @ [NL, NL]\<close>

definition anchor :: "string \<Rightarrow> string" where
  \<open>anchor a = ''  <a name='' @ a @ ''></a>'' @ [NL, NL]\<close>

text \<open>\<^verbatim>\<open>for (i=0; i<3; i++)\<close>: the first three links; it returns \<open>i\<close> too, which the fourth uses.\<close>

function links_loop :: "nat \<Rightarrow> string list \<Rightarrow> nat \<times> string list" where
  "links_loop i out =
    (if i < 3 then links_loop (i + 1) (out @ [jump_link (alph ! i)]) else (i, out))"
  by pat_completeness auto
termination
  by (relation "measure (\<lambda>(i, out). 3 - i)") auto

text \<open>
  The loop over the records, with the locals \<open>i\<close>, \<open>j\<close>, the two counters and \<^verbatim>\<open>stdout\<close>.
  Every field of \<^verbatim>\<open>entry[i]\<close> is read in each round.
\<close>

function records_loop :: "string option thesis list \<Rightarrow> int \<Rightarrow> nat \<Rightarrow> nat \<Rightarrow> int \<times> int
    \<Rightarrow> string list \<Rightarrow> fault + ((int \<times> int) \<times> string list)" where
  "records_loop entry cnt i j c out =
    (if int i < cnt then
       (case element entry i of
          Inl f \<Rightarrow> Inl f
        | Inr t \<Rightarrow>
            if j < 4 \<and> toupper (char_int (first_byte (author t)))
                         \<ge> char_int (first_byte (alph ! j))
            then records_loop entry cnt (i + 1) (j + 1) (count_degree (degree t) c)
                   (out @ [anchor (alph ! j)] @ table_html t)
            else records_loop entry cnt (i + 1) j (count_degree (degree t) c)
                   (out @ table_html t))
     else Inr (c, out))"
  by pat_completeness auto
termination
  by (relation "measure (\<lambda>(entry, cnt, i, j, c, out). nat cnt - i)") auto

definition write_html :: "string option thesis list \<Rightarrow> int \<Rightarrow> fault + string list" where
  \<open>write_html entry cnt =
    (let out = [begin_marker, div_open, ''  <b>Jump to:</b>&nbsp;'' @ [NL]];
         (i, out) = links_loop 0 out;
         out = out @ [jump_link_last (alph ! i), ''  <br><br>'' @ [NL, NL]]
     in case records_loop entry cnt 0 0 (0, 0) out of
          Inl f \<Rightarrow> Inl f
        | Inr ((ms_cnt, phd_cnt), out) \<Rightarrow> Inr (out @ summary cnt ms_cnt phd_cnt))\<close>

subsection \<open>\<^verbatim>\<open>write_html\<close> of \<^verbatim>\<open>parse_theses_year.c\<close>\<close>

text \<open>\<^verbatim>\<open>entry[i].year\<close> and \<^verbatim>\<open>entry[i]\<close> through the pointer \<open>entry\<close>.\<close>

definition field_year :: "string option thesis list option \<Rightarrow> nat \<Rightarrow> fault + string" where
  "field_year entry i =
    (case entry of
       None \<Rightarrow> Inl NullDereference
     | Some a \<Rightarrow>
         if i < length a
         then (case year (a ! i) of None \<Rightarrow> Inl IndeterminateRead | Some s \<Rightarrow> Inr s)
         else Inl OutOfBounds)"

definition element_year :: "string option thesis list option \<Rightarrow> nat
    \<Rightarrow> fault + string thesis" where
  "element_year entry i =
    (case entry of None \<Rightarrow> Inl NullDereference | Some a \<Rightarrow> element a i)"

definition year_link :: "string \<Rightarrow> string" where
  \<open>year_link y = ''    <a href="#'' @ y @ ''">'' @ y @ ''</a>&nbsp;''\<close>

definition year_link_next :: "string \<Rightarrow> string" where
  \<open>year_link_next y = ''|'' @ [NL] @ ''    <a href="#'' @ y @ ''">'' @ y @ ''</a>&nbsp;''\<close>

definition year_anchor :: "string \<Rightarrow> string" where
  \<open>year_anchor y = ''  <a name='' @ y @ ''></a>'' @ [NL]\<close>

definition year_heading :: "string \<Rightarrow> string" where
  \<open>year_heading y = ''  <center><b>'' @ y @ ''</b></center><br>'' @ [NL, NL]\<close>

text \<open>The loop that writes the year links; \<open>year'\<close> is the local buffer \<^verbatim>\<open>year\<close>.\<close>

function year_links_loop :: "string option thesis list option \<Rightarrow> int \<Rightarrow> nat \<Rightarrow> string
    \<Rightarrow> string list \<Rightarrow> fault + string list" where
  "year_links_loop entry num i year' out =
    (if int i < num then
       (case field_year entry i of
          Inl f \<Rightarrow> Inl f
        | Inr y \<Rightarrow>
            if strcmp year' y \<noteq> 0
            then year_links_loop entry num (i + 1) y (out @ [year_link_next y])
            else year_links_loop entry num (i + 1) year' out)
     else Inr out)"
  by pat_completeness auto
termination
  by (relation "measure (\<lambda>(entry, num, i, y, out). nat num - i)") auto

text \<open>The loop over the records; every field of \<^verbatim>\<open>entry[i]\<close> is read in each round.\<close>

function year_records_loop :: "string option thesis list option \<Rightarrow> int \<Rightarrow> nat \<Rightarrow> string
    \<Rightarrow> int \<times> int \<Rightarrow> string list \<Rightarrow> fault + ((int \<times> int) \<times> string list)" where
  "year_records_loop entry num i year' c out =
    (if int i < num then
       (case element_year entry i of
          Inl f \<Rightarrow> Inl f
        | Inr t \<Rightarrow>
            if strcmp year' (year t) \<noteq> 0
            then year_records_loop entry num (i + 1) (year t) (count_degree (degree t) c)
                   (out @ [year_anchor (year t), year_heading (year t)] @ table_html t)
            else year_records_loop entry num (i + 1) year' (count_degree (degree t) c)
                   (out @ table_html t))
     else Inr (c, out))"
  by pat_completeness auto
termination
  by (relation "measure (\<lambda>(entry, num, i, y, c, out). nat num - i)") auto

text \<open>
  \<^verbatim>\<open>strcpy(year, entry[0].year)\<close> comes before each of the two loops, whatever \<open>num\<close> is.
  A fault ends the run; what had been written before it is not kept in the model.
\<close>

definition write_html_year :: "string option thesis list option \<Rightarrow> int
    \<Rightarrow> fault + string list" where
  \<open>write_html_year entry num =
    (let out = [begin_marker, div_open,
                ''  <div style="width:800px;">'' @ [NL],
                ''    <b>Jump to:</b>&nbsp;'' @ [NL]]
     in case field_year entry 0 of
          Inl f \<Rightarrow> Inl f
        | Inr year0 \<Rightarrow>
            (case year_links_loop entry num 0 year0 (out @ [year_link year0]) of
               Inl f \<Rightarrow> Inl f
             | Inr out \<Rightarrow>
                 (let out = out @ [[NL] @ ''  </div>'' @ [NL], ''  <br><br>'' @ [NL, NL]]
                  in case field_year entry 0 of
                       Inl f \<Rightarrow> Inl f
                     | Inr year0 \<Rightarrow>
                         (case year_records_loop entry num 0 year0 (0, 0)
                                 (out @ [year_anchor year0, year_heading year0]) of
                            Inl f \<Rightarrow> Inl f
                          | Inr ((ms_cnt, phd_cnt), out) \<Rightarrow>
                              Inr (out @ summary num ms_cnt phd_cnt)))))\<close>

section \<open>The two programs\<close>

text \<open>
  What a run leaves behind: the exit status and what was written to the two streams.
\<close>

record outcome =
  status :: int
  stdout :: "string list"
  stderr :: "string list"

definition default_name :: string where
  "default_name = ''superdarn_theses.txt''"

definition not_found :: "string \<Rightarrow> string" where
  "not_found fname = ''File not found: '' @ fname @ [NL]"

definition parse_failed :: string where
  "parse_failed = ''Failed to parse input text file.'' @ [NL]"

text \<open>
  \<^verbatim>\<open>qsort\<close> belongs to the C library, not to the programs: how it orders the array with the
  comparator it is given is a parameter \<open>qsort\<close> of \<open>main\<close>, a function from the comparator
  and the records \<^verbatim>\<open>entry[0..cnt-1]\<close> to the records in their new places. The call reads
  and rewrites these \<open>cnt\<close> structs and nothing else.
\<close>

fun load_all :: "string option thesis list \<Rightarrow> fault + string thesis list" where
  "load_all [] = Inr []"
| "load_all (m # ms) =
    (case load m of
       Inl f \<Rightarrow> Inl f
     | Inr t \<Rightarrow> (case load_all ms of Inl f \<Rightarrow> Inl f | Inr ts \<Rightarrow> Inr (t # ts)))"

definition qsort_call :: "('cmp \<Rightarrow> string thesis list \<Rightarrow> string thesis list) \<Rightarrow> 'cmp
    \<Rightarrow> string option thesis list \<Rightarrow> int \<Rightarrow> fault + string option thesis list" where
  "qsort_call qsort cmp entry cnt =
    (if length entry < nat cnt then Inl OutOfBounds
     else case load_all (take (nat cnt) entry) of
            Inl f \<Rightarrow> Inl f
          | Inr es \<Rightarrow> Inr (map stored (qsort cmp es) @ drop (nat cnt) entry))"

text \<open>
  \<open>main\<close> of \<^verbatim>\<open>parse_theses.c\<close>. \<open>argv\<close> is the argument vector (\<^verbatim>\<open>argc\<close> is its length),
  \<open>fopen\<close> the file system: the reads of the file of a name, \<open>None\<close> when it cannot be
  opened. \<^verbatim>\<open>strcpy(fname, ...)\<close> writes past \<^verbatim>\<open>fname\<close> when the name does not fit.
\<close>

definition main :: "((nat \<times> string thesis \<Rightarrow> nat \<times> string thesis \<Rightarrow> int)
      \<Rightarrow> string thesis list \<Rightarrow> string thesis list)
    \<Rightarrow> (string \<Rightarrow> char list list option) \<Rightarrow> string list \<Rightarrow> fault + outcome" where
  "main qsort fopen argv =
    (let fname = (if length argv < 2 then default_name else argv ! 1)
     in if STRLEN \<le> length fname then Inl OutOfBounds
        else case fopen fname of
               None \<Rightarrow> Inr \<lparr>status = - 1, stdout = [], stderr = [not_found fname]\<rparr>
             | Some fp \<Rightarrow>
                 (case parse_text fp (replicate MAX_DOC uninit) of
                    Inl f \<Rightarrow> Inl f
                  | Inr (cnt, entry, err) \<Rightarrow>
                      if cnt = - 1
                      then Inr \<lparr>status = - 1, stdout = [], stderr = err @ [parse_failed]\<rparr>
                      else (case qsort_call qsort compare entry cnt of
                              Inl f \<Rightarrow> Inl f
                            | Inr entry' \<Rightarrow>
                                (case write_html entry' cnt of
                                   Inl f \<Rightarrow> Inl f
                                 | Inr out \<Rightarrow>
                                     Inr \<lparr>status = 0, stdout = out, stderr = err\<rparr>))))"

text \<open>
  \<open>main\<close> of \<^verbatim>\<open>parse_theses_year.c\<close>. \<^verbatim>\<open>qsort\<close> on no elements touches nothing, so a null
  \<open>entry\<close> with \<open>num = 0\<close> passes through it.
\<close>

definition main_year :: "((string thesis \<Rightarrow> string thesis \<Rightarrow> int)
      \<Rightarrow> string thesis list \<Rightarrow> string thesis list)
    \<Rightarrow> (string \<Rightarrow> char list list option) \<Rightarrow> string list \<Rightarrow> fault + outcome" where
  "main_year qsort fopen argv =
    (let fname = (if length argv < 2 then default_name else argv ! 1)
     in if STRLEN \<le> length fname then Inl OutOfBounds
        else case fopen fname of
               None \<Rightarrow> Inr \<lparr>status = - 1, stdout = [], stderr = [not_found fname]\<rparr>
             | Some fp \<Rightarrow>
                 (case parse_text_year fp of
                    Inl f \<Rightarrow> Inl f
                  | Inr (entry, num) \<Rightarrow>
                      if num = - 1
                      then Inr \<lparr>status = - 1, stdout = [], stderr = [parse_failed]\<rparr>
                      else (case (case entry of
                                    None \<Rightarrow> if num \<le> 0 then Inr None else Inl NullDereference
                                  | Some a \<Rightarrow>
                                      (case qsort_call qsort compare_year a num of
                                         Inl f \<Rightarrow> Inl f
                                       | Inr a' \<Rightarrow> Inr (Some a'))) of
                              Inl f \<Rightarrow> Inl f
                            | Inr entry' \<Rightarrow>
                                (case write_html_year entry' num of
                                   Inl f \<Rightarrow> Inl f
                                 | Inr out \<Rightarrow>
                                     Inr \<lparr>status = 0, stdout = out, stderr = []\<rparr>))))"

section \<open>The records of an input, as the specification words them\<close>

text \<open>
  The specification's reading of the input: seven lines make a record, in the order author,
  year, title, advisor, affiliation, degree, url, each line without its line terminator,
  and the line after a record is skipped. \<open>leftover\<close> is the incomplete group of lines at
  the end of the input, \<open>partial\<close> the struct that these lines leave half written.
\<close>

fun records_of :: "char list list \<Rightarrow> string thesis list" where
  "records_of (a # y # t # ad # af # d # u # rest) =
     \<lparr>author = trim a, year = trim y, title = trim t, advisor = trim ad, affiliation = trim af,
      degree = trim d, url = trim u\<rparr> # records_of (drop 1 rest)"
| "records_of ls = []"

fun leftover :: "char list list \<Rightarrow> char list list" where
  "leftover (a # y # t # ad # af # d # u # rest) = leftover (drop 1 rest)"
| "leftover ls = ls"

fun fill :: "nat \<Rightarrow> char list list \<Rightarrow> string option thesis \<Rightarrow> string option thesis" where
  "fill i [] t = t"
| "fill i (raw # ls) t = fill (i + 1) ls (set_field i (trim raw) t)"

definition partial :: "char list list \<Rightarrow> string option thesis list" where
  "partial ls = (if ls = [] then [] else [fill 0 ls uninit])"

section \<open>The output of the renderers, in parts\<close>

text \<open>
  The parts that the output of a renderer is made of, for the statements below: the lines
  before the records, the part that the loop over the records writes for a list of records
  (\<open>alpha_body\<close> from the bucket \<open>j\<close> on, \<open>year_nav\<close> and \<open>year_body\<close> after the year \<open>y\<close>),
  and the two counters after a list of records.
\<close>

definition jump_to :: string where
  \<open>jump_to = ''  <b>Jump to:</b>&nbsp;'' @ [NL]\<close>

definition breaks :: string where
  \<open>breaks = ''  <br><br>'' @ [NL, NL]\<close>

definition alpha_head :: "string list" where
  "alpha_head = [begin_marker, div_open, jump_to,
     jump_link ''A-G'', jump_link ''H-N'', jump_link ''O-U'', jump_link_last ''V-Z'', breaks]"

fun alpha_body :: "nat \<Rightarrow> string thesis list \<Rightarrow> string list" where
  "alpha_body j [] = []"
| "alpha_body j (t # ts) =
    (if j < 4 \<and> toupper (char_int (first_byte (author t))) \<ge> char_int (first_byte (alph ! j))
     then anchor (alph ! j) # table_html t @ alpha_body (j + 1) ts
     else table_html t @ alpha_body j ts)"

definition degree_counts :: "int \<times> int \<Rightarrow> string thesis list \<Rightarrow> int \<times> int" where
  "degree_counts c es = foldl (\<lambda>c t. count_degree (degree t) c) c es"

definition year_head :: "string list" where
  \<open>year_head = [begin_marker, div_open, ''  <div style="width:800px;">'' @ [NL],
     ''    <b>Jump to:</b>&nbsp;'' @ [NL]]\<close>

definition year_mid :: "string list" where
  \<open>year_mid = [[NL] @ ''  </div>'' @ [NL], ''  <br><br>'' @ [NL, NL]]\<close>

fun year_nav :: "string \<Rightarrow> string thesis list \<Rightarrow> string list" where
  "year_nav y [] = []"
| "year_nav y (t # ts) =
    (if strcmp y (year t) \<noteq> 0 then year_link_next (year t) # year_nav (year t) ts
     else year_nav y ts)"

fun year_body :: "string \<Rightarrow> string thesis list \<Rightarrow> string list" where
  "year_body y [] = []"
| "year_body y (t # ts) =
    (if strcmp y (year t) \<noteq> 0
     then [year_anchor (year t), year_heading (year t)] @ table_html t @ year_body (year t) ts
     else table_html t @ year_body y ts)"

section \<open>The year sections, as the specification words them\<close>

text \<open>
  The distinct values of a list in the order in which they first appear; the navigation
  line for a list of years, one jump link per year, each link after the first one preceded
  by "|" and a line break; the section of a year, which is the anchor named by the year, the
  centred heading that shows the year, and the tables of the records of that year; and one
  section per distinct year, in the order of first appearance.
\<close>

fun first_seen :: "'a list \<Rightarrow> 'a list" where
  "first_seen [] = []"
| "first_seen (x # xs) = x # first_seen (removeAll x xs)"

definition year_nav_line :: "string list \<Rightarrow> string list" where
  \<open>year_nav_line ys =
    (case ys of
       [] \<Rightarrow> []
     | y # ys' \<Rightarrow>
         [''    <a href="#'' @ y @ ''">'' @ y @ ''</a>&nbsp;'']
         @ map (\<lambda>y'. ''|'' @ [NL] @ ''    <a href="#'' @ y' @ ''">'' @ y' @ ''</a>&nbsp;'') ys')\<close>

definition year_section :: "string thesis list \<Rightarrow> string \<Rightarrow> string list" where
  \<open>year_section es y =
     [''  <a name='' @ y @ ''></a>'' @ [NL],
      ''  <center><b>'' @ y @ ''</b></center><br>'' @ [NL, NL]]
     @ concat (map table_html (filter (\<lambda>t. year t = y) es))\<close>

definition year_sections :: "string thesis list \<Rightarrow> string list" where
  "year_sections es = concat (map (year_section es) (first_seen (map year es)))"

text \<open>
  Among the texts written to \<^verbatim>\<open>stdout\<close>, a jump link of the year navigation is one that
  begins with \<^verbatim>\<open>    <a href="#\<close>, after "|" and a line break when it is not the first link. An
  anchor is a text that begins with \<^verbatim>\<open>  <a name=\<close>, a centred heading one that begins with
  \<^verbatim>\<open>  <center><b>\<close>.
\<close>

definition year_link_text :: "string \<Rightarrow> bool" where
  \<open>year_link_text s \<longleftrightarrow>
     prefix ''    <a href="#'' s \<or> prefix (''|'' @ [NL] @ ''    <a href="#'') s\<close>

section \<open>The table of a record, as the specification words it\<close>

text \<open>
  The text of the table of a record: the field values stand in their cells as they are.
  The degree row has one cell when \<^verbatim>\<open>url\<close> is the empty string; otherwise it has a second
  cell with a link labelled "URL" to that \<^verbatim>\<open>url\<close>, opening in a new browsing context.
\<close>

definition degree_row :: "string thesis \<Rightarrow> string" where
  \<open>degree_row t =
    (if url t = []
     then ''    <tr><td><b>Degree:</b> '' @ degree t @ ''</td></tr>'' @ [NL]
     else ''    <tr><td><b>Degree:</b> '' @ degree t @ ''</td>''
          @ ''<td align="right"><a href="'' @ url t @ ''" target="_blank">URL</a></td></tr>''
          @ [NL])\<close>

definition table_text :: "string thesis \<Rightarrow> string" where
  \<open>table_text t =
     ''  <table style="border:1px solid black; width:600px;">'' @ [NL]
     @ ''    <tr><td><b>Author:</b> '' @ author t @ ''</td></tr>'' @ [NL]
     @ ''    <tr><td><b>Year:</b> '' @ year t @ ''</td></tr>'' @ [NL]
     @ ''    <tr><td><b>Title:</b> '' @ title t @ ''</td></tr>'' @ [NL]
     @ ''    <tr><td><b>Advisor:</b> '' @ advisor t @ ''</td></tr>'' @ [NL]
     @ ''    <tr><td><b>Affiliation:</b> '' @ affiliation t @ ''</td></tr>'' @ [NL]
     @ degree_row t
     @ ''  </table><br>'' @ [NL, NL]\<close>

section \<open>A sorting function for the examples\<close>

text \<open>
  One function that can stand for \<^verbatim>\<open>qsort\<close> in the examples: insertion sort, which places
  an element before the first one that the comparator does not put before it. For the
  comparator on pointers, the element being placed is taken to lie at a lower address
  than the elements of the array.
\<close>

fun place :: "('a \<Rightarrow> 'a \<Rightarrow> int) \<Rightarrow> 'a \<Rightarrow> 'a list \<Rightarrow> 'a list" where
  "place cmp x [] = [x]"
| "place cmp x (y # ys) = (if cmp x y \<le> 0 then x # y # ys else y # place cmp x ys)"

definition insertion_qsort :: "('a \<Rightarrow> 'a \<Rightarrow> int) \<Rightarrow> 'a list \<Rightarrow> 'a list" where
  "insertion_qsort cmp es = foldr (place cmp) es []"

definition insertion_qsort_ptr :: "(nat \<times> 'a \<Rightarrow> nat \<times> 'a \<Rightarrow> int) \<Rightarrow> 'a list \<Rightarrow> 'a list" where
  "insertion_qsort_ptr cmp es = insertion_qsort (\<lambda>a b. cmp (0, a) (7 * STRLEN, b)) es"

section \<open>Example records\<close>

definition smith2020 :: "string thesis" where
  "smith2020 = \<lparr>author = ''Smith, J.'', year = ''2020'', title = ''Convection'',
     advisor = ''Baker, K.'', affiliation = ''Virginia Tech'', degree = ''PhD'', url = ''''\<rparr>"

definition smith2019 :: "string thesis" where
  "smith2019 = \<lparr>author = ''Smith, J.'', year = ''2019'', title = ''Irregularities'',
     advisor = ''Baker, K.'', affiliation = ''Virginia Tech'', degree = ''MS'',
     url = ''http://example.org/smith.pdf''\<rparr>"

definition bob2019 :: "string thesis" where
  "bob2019 = \<lparr>author = ''bob smith'', year = ''2019'', title = ''Radar'',
     advisor = ''Ruohoniemi, J.'', affiliation = ''Dartmouth'', degree = ''Other'', url = ''''\<rparr>"

text \<open>
  Lines of a file with their line terminator, the seven lines of a record, and some inputs:
  two lines only; a record, a separator line that is not blank, and one more line; and
  \<^verbatim>\<open>MAX_DOC\<close> records, and one record fewer, each record followed by a blank line.
\<close>

definition line :: "string \<Rightarrow> char list" where
  "line s = s @ [NL]"

definition record_lines :: "string thesis \<Rightarrow> char list list" where
  "record_lines t = map line [author t, year t, title t, advisor t, affiliation t, degree t, url t]"

definition adams :: "string thesis" where
  "adams = \<lparr>author = ''Adams, A.'', year = ''2001'', title = ''Backscatter'',
     advisor = ''Greenwald, R.'', affiliation = ''JHU/APL'', degree = ''MS'', url = ''''\<rparr>"

definition harris :: "string thesis" where
  "harris = \<lparr>author = ''harris, B.'', year = ''2011'', title = ''Cusp'',
     advisor = ''Lester, M.'', affiliation = ''Leicester'', degree = ''PhD'',
     url = ''http://example.org/harris.pdf''\<rparr>"

definition zimmer :: "string thesis" where
  "zimmer = \<lparr>author = ''Zimmer, C.'', year = ''1999'', title = ''Drift'',
     advisor = ''Sofko, G.'', affiliation = ''Saskatchewan'', degree = ''PhD'', url = ''''\<rparr>"

definition two_lines :: "char list list" where
  "two_lines = [line ''Smith, J.'', line ''2020'']"

definition full_input :: "char list list" where
  "full_input = concat (replicate MAX_DOC (record_lines bob2019 @ [[NL]]))"

definition almost_full_input :: "char list list" where
  "almost_full_input = concat (replicate (MAX_DOC - 1) (record_lines bob2019 @ [[NL]]))"


text \<open>Two records, the second right after the first: fourteen lines, no separator line.\<close>

definition fourteen_lines :: "char list list" where
  "fourteen_lines = record_lines smith2020 @ record_lines smith2019"

text \<open>Three records in the year-primary order.\<close>

definition sorted_three :: "string thesis list" where
  "sorted_three = [smith2020, bob2019, smith2019]"

text \<open>Two records with a blank line between them; the first author is in lower case.\<close>

definition two_records :: "char list list" where
  "two_records = record_lines bob2019 @ [NL] # record_lines smith2019"

section \<open>Properties of the library model\<close>

lemma of_char_int_nat: "(of_char c :: int) = int (of_char c)"
  by (simp add: of_char_def)

lemma of_char_nonzero: "c \<noteq> NUL \<Longrightarrow> 0 < (of_char c :: int)"
proof -
  assume "c \<noteq> NUL"
  then have "(of_char c :: int) \<noteq> of_char NUL" by simp
  then have "(of_char c :: int) \<noteq> 0" by (simp add: NUL_def)
  moreover have "0 \<le> (of_char c :: int)" by (simp add: of_char_int_nat)
  ultimately show ?thesis by simp
qed

lemma strcmp_sign:
  "cstring a \<Longrightarrow> cstring b \<Longrightarrow>
     (strcmp a b < 0 \<longleftrightarrow> a < b) \<and> (strcmp a b = 0 \<longleftrightarrow> a = b) \<and> (0 < strcmp a b \<longleftrightarrow> b < a)"
proof (induction a b rule: strcmp.induct)
  case 1
  show ?case by simp
next
  case (2 y ys)
  then have "y \<noteq> NUL" by (auto simp: cstring_def)
  from of_char_nonzero [OF this] show ?case by simp
next
  case (3 x xs)
  then have "x \<noteq> NUL" by (auto simp: cstring_def)
  from of_char_nonzero [OF this] show ?case by simp
next
  case (4 x xs y ys)
  show ?case
  proof (cases "x = y")
    case True
    with 4 show ?thesis by (simp add: cstring_def)
  next
    case False
    then have "(of_char x :: nat) \<noteq> of_char y" by simp
    with False show ?thesis
      by (auto simp: less_char_def of_char_int_nat)
  qed
qed

lemma strcmp_eq_iff: "cstring a \<Longrightarrow> cstring b \<Longrightarrow> strcmp a b = 0 \<longleftrightarrow> a = b"
  using strcmp_sign [of a b] by simp

lemma char_of_high: "char_of ((of_char c :: int) - 256) = c"
  by (metis char_of_char char_of_mod_256 minus_mod_self2)

lemma upper_conv: "int_char (toupper (char_int c)) = upper_char c"
proof -
  let ?n = "of_char c :: nat"
  have le: "CHR ''a'' \<le> c \<longleftrightarrow> 97 \<le> ?n" "c \<le> CHR ''z'' \<longleftrightarrow> ?n \<le> 122"
    by (simp_all add: less_eq_char_def)
  show ?thesis
  proof (cases "97 \<le> ?n \<and> ?n \<le> 122")
    case True
    then have "char_int c = int ?n" by (simp add: char_int_def of_char_int_nat)
    moreover from True have "int ?n - 32 = int (?n - 32)" by simp
    ultimately show ?thesis using True
      by (simp add: int_char_def toupper_def upper_char_def le del: of_nat_diff)
  next
    case False
    have "int_char (toupper (char_int c)) = c"
    proof (cases "(of_char c :: int) < 128")
      case True
      with False have "toupper (char_int c) = of_char c"
        by (auto simp: toupper_def char_int_def of_char_int_nat)
      then show ?thesis by (simp add: int_char_def)
    next
      case high: False
      have "(of_char c :: int) < 256" by (simp add: of_char_int_nat)
      with high have "toupper (char_int c) = of_char c \<or> toupper (char_int c) = of_char c - 256"
        by (simp add: toupper_def char_int_def)
      then show ?thesis by (auto simp: int_char_def char_of_high)
    qed
    with False show ?thesis by (auto simp: upper_char_def le)
  qed
qed

lemma toupper_first_spec: "toupper_first s = first_upper s"
  by (simp add: toupper_first_def first_upper_def upper_conv split: list.splits)

lemma upper_char_NUL: "upper_char c = NUL \<longleftrightarrow> c = NUL"
proof (cases "CHR ''a'' \<le> c \<and> c \<le> CHR ''z''")
  case True
  then have n: "97 \<le> (of_char c :: nat)" "(of_char c :: nat) \<le> 122"
    by (simp_all add: less_eq_char_def)
  then have "(of_char (char_of (of_char c - (32::nat))) :: nat) = of_char c - 32"
    by simp
  with n have "(of_char (upper_char c) :: nat) \<noteq> 0" using True
    by (simp add: upper_char_def)
  then have "upper_char c \<noteq> NUL" by (auto simp: NUL_def)
  moreover from n have "c \<noteq> NUL" by (auto simp: NUL_def)
  ultimately show ?thesis by simp
next
  case False
  then show ?thesis by (auto simp: upper_char_def)
qed

lemma cstring_first_upper: "cstring s \<Longrightarrow> cstring (first_upper s)"
proof (cases s)
  case Nil
  then show ?thesis by (simp add: first_upper_def cstring_def)
next
  case (Cons c cs)
  assume "cstring s"
  with Cons have "c \<noteq> NUL" and "NUL \<notin> set cs" by (auto simp: cstring_def)
  then have "upper_char c \<noteq> NUL" by (simp add: upper_char_NUL)
  with \<open>NUL \<notin> set cs\<close> Cons show ?thesis by (auto simp: first_upper_def cstring_def)
qed

section \<open>The reads of a file\<close>

lemma fgets_line:
  "NL \<notin> set l \<Longrightarrow> length l + 1 < n \<Longrightarrow> fgets n (l @ NL # rest) = (l @ [NL], rest)"
  by (induction l arbitrary: n) auto

lemma fgets_no_newline: "NL \<notin> set l \<Longrightarrow> length l < n \<Longrightarrow> fgets n l = (l, [])"
  by (induction l arbitrary: n) auto

lemma fgets_full: "NL \<notin> set l \<Longrightarrow> length l + 1 = n \<Longrightarrow> fgets n (l @ rest) = (l, rest)"
proof (induction l arbitrary: n)
  case Nil
  then show ?case by (cases rest) simp_all
next
  case (Cons c l)
  then show ?case by auto
qed

text \<open>
  When every line of a file, with its newline, has fewer than \<^verbatim>\<open>STRLEN\<close> bytes, the reads
  are the lines, also when the last line has no newline. A file that begins with a line of
  more bytes is delivered in more than one read: the first one holds the first
  \<^verbatim>\<open>STRLEN - 1\<close> bytes of the line.
\<close>

lemma reads_lines:
  assumes "\<forall>l \<in> set ls. NL \<notin> set l \<and> length l + 1 < STRLEN"
  shows "reads (concat (map (\<lambda>l. l @ [NL]) ls)) = map (\<lambda>l. l @ [NL]) ls"
  using assms
proof (induction ls)
  case Nil
  show ?case by simp
next
  case (Cons l ls)
  then have l: "NL \<notin> set l" "length l + 1 < STRLEN" by simp_all
  have "fgets STRLEN (l @ NL # concat (map (\<lambda>l. l @ [NL]) ls))
      = (l @ [NL], concat (map (\<lambda>l. l @ [NL]) ls))"
    by (rule fgets_line [OF l])
  moreover have "reads (concat (map (\<lambda>l. l @ [NL]) ls)) = map (\<lambda>l. l @ [NL]) ls"
    using Cons by simp
  ultimately show ?case
    by (subst reads.simps) simp
qed

lemma reads_append:
  assumes "\<forall>l \<in> set ls. NL \<notin> set l \<and> length l + 1 < STRLEN"
  shows "reads (concat (map (\<lambda>l. l @ [NL]) ls) @ bs) = map (\<lambda>l. l @ [NL]) ls @ reads bs"
  using assms
proof (induction ls)
  case Nil
  show ?case by simp
next
  case (Cons l ls)
  then have l: "NL \<notin> set l" "length l + 1 < STRLEN" by simp_all
  have "fgets STRLEN (l @ NL # concat (map (\<lambda>l. l @ [NL]) ls) @ bs)
      = (l @ [NL], concat (map (\<lambda>l. l @ [NL]) ls) @ bs)"
    by (rule fgets_line [OF l])
  moreover have "reads (concat (map (\<lambda>l. l @ [NL]) ls) @ bs) = map (\<lambda>l. l @ [NL]) ls @ reads bs"
    using Cons by simp
  ultimately show ?case
    by (subst reads.simps) simp
qed

lemma reads_last_line:
  assumes "\<forall>l \<in> set ls. NL \<notin> set l \<and> length l + 1 < STRLEN"
    and "l' \<noteq> []" and "NL \<notin> set l'" and "length l' < STRLEN"
  shows "reads (concat (map (\<lambda>l. l @ [NL]) ls) @ l') = map (\<lambda>l. l @ [NL]) ls @ [l']"
proof -
  have "fgets STRLEN l' = (l', [])" by (rule fgets_no_newline [OF assms(3,4)])
  with assms(2) have "reads l' = [l']" by (subst reads.simps) simp
  with reads_append [OF assms(1), of l'] show ?thesis by simp
qed

lemma reads_long_line:
  assumes "STRLEN \<le> length bs" and "NL \<notin> set (take (STRLEN - 1) bs)"
  shows "\<exists>r rs. reads bs = take (STRLEN - 1) bs # r # rs"
proof -
  let ?a = "take (STRLEN - 1) bs" and ?b = "drop (STRLEN - 1) bs"
  from assms(1) have "length ?a + 1 = STRLEN" by (simp add: STRLEN_def)
  from fgets_full [OF assms(2) this, of ?b] have f: "fgets STRLEN bs = (?a, ?b)" by simp
  from assms(1) have ne: "bs \<noteq> []" "?b \<noteq> []" by (auto simp: STRLEN_def)
  from ne(2) have "reads ?b = fst (fgets STRLEN ?b) # reads (snd (fgets STRLEN ?b))"
    by (subst reads.simps) simp
  moreover from ne(1) f have "reads bs = ?a # reads ?b"
    by (subst reads.simps) simp
  ultimately show ?thesis by simp
qed

section \<open>The parsers run\<close>

lemma length_records_of: "length (records_of fp) = (length fp + 1) div 8"
proof (induction fp rule: records_of.induct)
  case (1 a y t ad af d u rest)
  then show ?case by (cases rest) simp_all
qed simp_all

lemma set_all_fields:
  "set_field 6 u (set_field 5 d (set_field 4 af (set_field 3 ad (set_field 2 t
     (set_field 1 y (set_field 0 a m))))))
   = stored \<lparr>author = a, year = y, title = t, advisor = ad, affiliation = af, degree = d, url = u\<rparr>"
  by (cases m) (simp add: set_field_def stored_def)

lemma year_sep: "parse_loop_year 7 k E rest = parse_loop_year 0 k E (drop 1 rest)"
  by (cases rest) (simp_all add: advance_def)

lemma year_group:
  assumes "E = None \<and> A = [] \<or> E = Some A" and "length A = k"
  shows "parse_loop_year 0 k E (a # y # t # ad # af # d # u # rest)
       = parse_loop_year 0 (k + 1)
           (Some (A @ [stored \<lparr>author = trim a, year = trim y, title = trim t, advisor = trim ad,
              affiliation = trim af, degree = trim d, url = trim u\<rparr>])) (drop 1 rest)"
proof -
  have "parse_loop_year 0 k E (a # y # t # ad # af # d # u # rest)
       = parse_loop_year 7 (k + 1)
           (Some (A @ [set_field 6 (trim u) (set_field 5 (trim d) (set_field 4 (trim af)
              (set_field 3 (trim ad) (set_field 2 (trim t) (set_field 1 (trim y)
              (set_field 0 (trim a) uninit))))))])) rest"
    using assms by (auto simp: advance_def assign_def malloc_def realloc_def eval_nat_numeral)
  then show ?thesis by (simp only: set_all_fields year_sep)
qed

lemma year_loop:
  assumes "E = None \<and> A = [] \<or> E = Some A" and "length A = k"
  shows "parse_loop_year 0 k E fp
       = Inr (if fp = [] then E else Some (A @ map stored (records_of fp) @ partial (leftover fp)),
              int (k + length (records_of fp)))"
  using assms
proof (induction fp arbitrary: E A k rule: records_of.induct)
  case (1 a y t ad af d u rest)
  let ?r = "\<lparr>author = trim a, year = trim y, title = trim t, advisor = trim ad,
              affiliation = trim af, degree = trim d, url = trim u\<rparr>"
  have "parse_loop_year 0 (k + 1) (Some (A @ [stored ?r])) (drop 1 rest)
      = Inr (if drop 1 rest = [] then Some (A @ [stored ?r])
             else Some ((A @ [stored ?r]) @ map stored (records_of (drop 1 rest))
                    @ partial (leftover (drop 1 rest))),
             int (k + 1 + length (records_of (drop 1 rest))))"
    using 1 by (intro "1.IH") simp_all
  moreover have "drop 1 rest = [] \<Longrightarrow> records_of (drop 1 rest) = [] \<and> partial (leftover (drop 1 rest)) = []"
    by (simp add: partial_def)
  ultimately show ?case
    using year_group [OF "1.prems", of a y t ad af d u rest] by auto
qed (auto simp: advance_def assign_def malloc_def realloc_def partial_def)

lemma parse_text_year_result:
  "parse_text_year fp
     = Inr (if fp = [] then None else Some (map stored (records_of fp) @ partial (leftover fp)),
            int (length (records_of fp)))"
  using year_loop [of None "[]" 0 fp] by (simp add: parse_text_year_def)


lemma alpha_sep: "k < MAX_DOC \<Longrightarrow> parse_loop 7 k entry rest = parse_loop 0 k entry (drop 1 rest)"
  by (cases rest) (simp_all add: advance_def assign_def)

lemma alpha_group:
  assumes "k + 1 < MAX_DOC" and "k < length entry"
  shows "parse_loop 0 k entry (a # y # t # ad # af # d # u # rest)
       = parse_loop 0 (k + 1) (entry[k := stored \<lparr>author = trim a, year = trim y, title = trim t,
                 advisor = trim ad, affiliation = trim af, degree = trim d, url = trim u\<rparr>])
           (drop 1 rest)"
proof -
  have "parse_loop 0 k entry (a # y # t # ad # af # d # u # rest)
       = parse_loop 7 (k + 1) (entry[k := set_field 6 (trim u) (set_field 5 (trim d)
              (set_field 4 (trim af) (set_field 3 (trim ad) (set_field 2 (trim t)
              (set_field 1 (trim y) (set_field 0 (trim a) (entry ! k)))))))]) rest"
    using assms by (simp add: advance_def assign_def eval_nat_numeral)
  then show ?thesis
    by (simp only: set_all_fields alpha_sep [OF assms(1)])
qed

lemma alpha_group_full:
  assumes "k < MAX_DOC" and "MAX_DOC \<le> k + 1" and "k < length entry"
  shows "parse_loop 0 k entry (a # y # t # ad # af # d # u # rest)
       = Inr (- 1, entry[k := stored \<lparr>author = trim a, year = trim y, title = trim t,
                 advisor = trim ad, affiliation = trim af, degree = trim d, url = trim u\<rparr>],
              [too_many])"
proof -
  have "parse_loop 0 k entry (a # y # t # ad # af # d # u # rest)
       = Inr (- 1, entry[k := set_field 6 (trim u) (set_field 5 (trim d)
              (set_field 4 (trim af) (set_field 3 (trim ad) (set_field 2 (trim t)
              (set_field 1 (trim y) (set_field 0 (trim a) (entry ! k)))))))], [too_many])"
    using assms by (simp add: advance_def assign_def eval_nat_numeral)
  then show ?thesis
    by (simp only: set_all_fields)
qed

lemma alpha_loop:
  assumes "k < MAX_DOC" and "MAX_DOC \<le> length entry"
  shows "\<exists>entry'. length entry' = length entry
     \<and> parse_loop 0 k entry fp
         = (if k + length (records_of fp) < MAX_DOC
            then Inr (int (k + length (records_of fp)), entry', [])
            else Inr (- 1, entry', [too_many]))
     \<and> (k + length (records_of fp) < MAX_DOC
          \<longrightarrow> take (k + length (records_of fp)) entry' = take k entry @ map stored (records_of fp))"
  using assms
proof (induction fp arbitrary: entry k rule: records_of.induct)
  case (1 a y t ad af d u rest)
  let ?r = "\<lparr>author = trim a, year = trim y, title = trim t, advisor = trim ad,
              affiliation = trim af, degree = trim d, url = trim u\<rparr>"
  let ?e = "entry[k := stored ?r]"
  let ?n = "length (records_of (drop 1 rest))"
  let ?fp = "a # y # t # ad # af # d # u # rest"
  from 1 have kl: "k < length entry" by simp
  have s: "k + length (records_of ?fp) = k + 1 + ?n" by simp
  show ?case
  proof (cases "MAX_DOC \<le> k + 1")
    case True
    then have full: "\<not> k + length (records_of ?fp) < MAX_DOC" by simp
    have "parse_loop 0 k entry ?fp = Inr (- 1, ?e, [too_many])"
      by (rule alpha_group_full [OF "1.prems"(1) True kl])
    with full show ?thesis
      by (intro exI [of _ ?e]) (simp only: if_False length_list_update simp_thms)
  next
    case False
    then have k1: "k + 1 < MAX_DOC" by simp
    moreover from 1 have "MAX_DOC \<le> length ?e" by simp
    ultimately obtain entry' where e: "length entry' = length ?e"
      "parse_loop 0 (k + 1) ?e (drop 1 rest)
         = (if k + 1 + ?n < MAX_DOC then Inr (int (k + 1 + ?n), entry', [])
            else Inr (- 1, entry', [too_many]))"
      "k + 1 + ?n < MAX_DOC
         \<longrightarrow> take (k + 1 + ?n) entry' = take (k + 1) ?e @ map stored (records_of (drop 1 rest))"
      using "1.IH" [of "k + 1" ?e] by blast
    have t: "take (k + 1) ?e = take k entry @ [stored ?r]"
      using kl by (simp add: take_Suc_conv_app_nth)
    have g: "parse_loop 0 k entry ?fp = parse_loop 0 (k + 1) ?e (drop 1 rest)"
      by (rule alpha_group [OF k1 kl])
    have r1: "parse_loop 0 k entry ?fp
         = (if k + length (records_of ?fp) < MAX_DOC
            then Inr (int (k + length (records_of ?fp)), entry', [])
            else Inr (- 1, entry', [too_many]))"
      by (simp only: g e(2) s)
    have r2: "k + length (records_of ?fp) < MAX_DOC
          \<longrightarrow> take (k + length (records_of ?fp)) entry' = take k entry @ map stored (records_of ?fp)"
      using e(3) unfolding s t by simp
    show ?thesis
    proof (intro exI [of _ entry'] conjI)
      show "length entry' = length entry" using e(1) by simp
    qed (rule r1, rule r2)
  qed
qed (auto simp: advance_def assign_def)




section \<open>The renderers run\<close>

lemma load_stored: "load (stored t) = Inr t"
  by (simp add: load_def stored_def)

lemma element_stored: "i < length es \<Longrightarrow> element (map stored es @ rest) i = Inr (es ! i)"
  by (simp add: element_def nth_append load_stored)

lemma links_loop_run:
  "links_loop 0 out = (3, out @ [jump_link ''A-G'', jump_link ''H-N'', jump_link ''O-U''])"
proof -
  have "links_loop 3 out' = (3, out')" for out' by simp
  then have "links_loop 2 out' = (3, out' @ [jump_link ''O-U''])" for out'
    by (subst links_loop.simps) (simp add: alph_def)
  then have "links_loop 1 out' = (3, out' @ [jump_link ''H-N'', jump_link ''O-U''])" for out'
    by (subst links_loop.simps) (simp add: alph_def)
  then show ?thesis
    by (subst links_loop.simps) (simp add: alph_def)
qed

lemma records_loop_run:
  "i \<le> length es \<Longrightarrow>
   records_loop (map stored es @ rest) (int (length es)) i j c out
     = Inr (degree_counts c (drop i es), out @ alpha_body j (drop i es))"
proof (induction "length es - i" arbitrary: i j c out)
  case 0
  then have "i = length es" by simp
  then show ?case by (simp add: degree_counts_def)
next
  case (Suc n)
  then have lt: "i < length es" and n: "n = length es - (i + 1)" and le: "i + 1 \<le> length es"
    by simp_all
  note IH = Suc.hyps(1) [OF n le]
  have d: "drop i es = es ! i # drop (i + 1) es"
    using lt by (simp add: Cons_nth_drop_Suc)
  show ?case
    apply (subst records_loop.simps)
    apply (simp only: d alpha_body.simps element_stored [OF lt] IH)
    using lt apply (simp add: degree_counts_def)
    done
qed

lemma write_html_run:
  "write_html (map stored es @ rest) (int (length es))
     = Inr (alpha_head @ alpha_body 0 es
            @ summary (int (length es)) (fst (degree_counts (0, 0) es)) (snd (degree_counts (0, 0) es)))"
  using records_loop_run [of 0 es rest 0 "(0, 0)"]
  by (simp add: write_html_def links_loop_run alpha_head_def jump_to_def breaks_def alph_def
      split: prod.splits del: links_loop.simps records_loop.simps)

lemma field_year_stored:
  "i < length es \<Longrightarrow> field_year (Some (map stored es @ rest)) i = Inr (year (es ! i))"
  by (simp add: field_year_def nth_append stored_def)

lemma element_year_stored:
  "i < length es \<Longrightarrow> element_year (Some (map stored es @ rest)) i = Inr (es ! i)"
  by (simp add: element_year_def element_stored)

lemma year_links_loop_run:
  "i \<le> length es \<Longrightarrow>
   year_links_loop (Some (map stored es @ rest)) (int (length es)) i y out
     = Inr (out @ year_nav y (drop i es))"
proof (induction "length es - i" arbitrary: i y out)
  case 0
  then have "i = length es" by simp
  then show ?case by simp
next
  case (Suc n)
  then have lt: "i < length es" and n: "n = length es - (i + 1)" and le: "i + 1 \<le> length es"
    by simp_all
  note IH = Suc.hyps(1) [OF n le]
  have d: "drop i es = es ! i # drop (i + 1) es"
    using lt by (simp add: Cons_nth_drop_Suc)
  show ?case
    apply (subst year_links_loop.simps)
    apply (simp only: d year_nav.simps field_year_stored [OF lt] IH)
    using lt apply simp
    done
qed

lemma year_records_loop_run:
  "i \<le> length es \<Longrightarrow>
   year_records_loop (Some (map stored es @ rest)) (int (length es)) i y c out
     = Inr (degree_counts c (drop i es), out @ year_body y (drop i es))"
proof (induction "length es - i" arbitrary: i y c out)
  case 0
  then have "i = length es" by simp
  then show ?case by (simp add: degree_counts_def)
next
  case (Suc n)
  then have lt: "i < length es" and n: "n = length es - (i + 1)" and le: "i + 1 \<le> length es"
    by simp_all
  note IH = Suc.hyps(1) [OF n le]
  have d: "drop i es = es ! i # drop (i + 1) es"
    using lt by (simp add: Cons_nth_drop_Suc)
  show ?case
    apply (subst year_records_loop.simps)
    apply (simp only: d year_body.simps element_year_stored [OF lt] IH)
    using lt apply (simp add: degree_counts_def)
    done
qed

lemma write_html_year_run:
  "es \<noteq> [] \<Longrightarrow>
   write_html_year (Some (map stored es @ rest)) (int (length es))
     = Inr (year_head @ year_link (year (hd es)) # year_nav (year (hd es)) es @ year_mid
            @ [year_anchor (year (hd es)), year_heading (year (hd es))] @ year_body (year (hd es)) es
            @ summary (int (length es)) (fst (degree_counts (0, 0) es)) (snd (degree_counts (0, 0) es)))"
  using year_records_loop_run [of 0 es rest] year_links_loop_run [of 0 es rest]
    field_year_stored [of 0 es rest]
  by (simp add: write_html_year_def year_head_def year_mid_def hd_conv_nth
      split: prod.splits del: year_links_loop.simps year_records_loop.simps)

subsection \<open>Anchors, headings and links among the texts written\<close>

lemma no_anchor_in_table: "filter (prefix ''  <a name='') (table_html t) = []"
  by (simp add: table_html_def table_open_def row_def degree_cell_def row_end_def url_cell_def
      table_close_def)

lemma no_anchor_in_summary: "filter (prefix ''  <a name='') (summary n m p) = []"
  by (simp add: summary_def)

lemma anchors_in_tables: "filter (prefix ''  <a name='') (concat (map table_html ts)) = []"
  by (induction ts) (simp_all add: no_anchor_in_table)

lemma headings_in_table: "filter (prefix ''  <center><b>'') (table_html t) = []"
  by (simp add: table_html_def table_open_def row_def degree_cell_def row_end_def url_cell_def
      table_close_def)

lemma headings_in_tables: "filter (prefix ''  <center><b>'') (concat (map table_html ts)) = []"
  by (induction ts) (simp_all add: headings_in_table)

lemma links_in_table: "filter year_link_text (table_html t) = []"
  by (simp add: year_link_text_def NL_def table_html_def table_open_def row_def degree_cell_def
      row_end_def url_cell_def table_close_def)

lemma links_in_tables: "filter year_link_text (concat (map table_html ts)) = []"
  by (induction ts) (simp_all add: links_in_table)

lemma year_anchor_count:
  "length (filter (prefix ''  <a name='')
     (year_head @ year_nav_line ys @ year_mid @ concat (map (year_section es) ys) @ summary n m p))
   = length ys"
proof -
  have "filter (prefix ''  <a name='') (year_nav_line ys) = []"
    by (cases ys) (simp_all add: year_nav_line_def filter_map o_def)
  moreover have "length (filter (prefix ''  <a name='') (concat (map (year_section es) ys))) = length ys"
    by (induction ys) (simp_all add: year_section_def anchors_in_tables)
  ultimately show ?thesis
    by (simp add: year_head_def year_mid_def begin_marker_def div_open_def no_anchor_in_summary NL_def)
qed

lemma year_heading_count:
  "length (filter (prefix ''  <center><b>'')
     (year_head @ year_nav_line ys @ year_mid @ concat (map (year_section es) ys) @ summary n m p))
   = length ys"
proof -
  have "filter (prefix ''  <center><b>'') (year_nav_line ys) = []"
    by (cases ys) (simp_all add: year_nav_line_def filter_map o_def)
  moreover have "length (filter (prefix ''  <center><b>'') (concat (map (year_section es) ys))) = length ys"
    by (induction ys) (simp_all add: year_section_def headings_in_tables)
  ultimately show ?thesis
    by (simp add: year_head_def year_mid_def begin_marker_def div_open_def summary_def NL_def)
qed

lemma year_link_count:
  "length (filter year_link_text
     (year_head @ year_nav_line ys @ year_mid @ concat (map (year_section es) ys) @ summary n m p))
   = length ys"
proof -
  have "filter year_link_text (year_nav_line ys) = year_nav_line ys"
    by (cases ys) (simp_all add: year_nav_line_def year_link_text_def)
  moreover have "length (year_nav_line ys) = length ys"
    by (cases ys) (simp_all add: year_nav_line_def)
  moreover have "filter year_link_text (concat (map (year_section es) ys)) = []"
  proof (induction ys)
    case Nil
    show ?case by simp
  next
    case (Cons y ys)
    have "filter year_link_text (year_section es y) = []"
      by (simp add: year_section_def links_in_tables) (simp add: year_link_text_def NL_def)
    with Cons show ?case by simp
  qed
  ultimately show ?thesis
    by (simp add: year_head_def year_mid_def begin_marker_def div_open_def summary_def NL_def
        year_link_text_def)
qed

section \<open>The comparators: claims C1 and C5\<close>

text \<open>
  Claim C1. In the author-primary order of \<^verbatim>\<open>parse_theses.c\<close>, records whose normalised
  authors are equal should be ordered by their \<^verbatim>\<open>year\<close> strings, ascending. The code compares
  the addresses of the two \<^verbatim>\<open>year\<close> buffers instead of their contents: for two records of
  the same author, the one at the lower address, of year 2020, is ordered before the one of
  year 2019, although \<^verbatim>\<open>strcmp\<close> puts 2019 first and the claimed order does too; and the same
  two records at exchanged addresses are ordered the other way round. The result of
  \<open>compare\<close> never depends on what the \<^verbatim>\<open>year\<close> buffers hold.
\<close>

theorem compare_ties_by_address:
  "compare (0, smith2020) (3584, smith2019) = - 1
   \<and> compare (3584, smith2020) (0, smith2019) = 1
   \<and> 0 < strcmp (year smith2020) (year smith2019)
   \<and> author_primary_less smith2019 smith2020
   \<and> compare (p1, t1\<lparr>year := y1\<rparr>) (p2, t2\<lparr>year := y2\<rparr>) = compare (p1, t1) (p2, t2)"
proof -
  have "compare (0, smith2020) (3584, smith2019) = - 1"
    "compare (3584, smith2020) (0, smith2019) = 1"
    "0 < strcmp (year smith2020) (year smith2019)"
    "author_primary_less smith2019 smith2020"
    by (simp_all add: compare_def smith2020_def smith2019_def toupper_first_def int_char_def
        toupper_def char_int_def year_ptr_def STRLEN_def author_primary_less_def first_upper_def)
  moreover have "compare (p1, t1\<lparr>year := y1\<rparr>) (p2, t2\<lparr>year := y2\<rparr>) = compare (p1, t1) (p2, t2)"
    by (simp add: compare_def)
  ultimately show ?thesis by simp
qed

lemma compare_year_sign:
  assumes "wf_thesis t1" and "wf_thesis t2"
  shows "(compare_year t1 t2 < 0 \<longleftrightarrow> year_primary_less t1 t2)
       \<and> (compare_year t1 t2 = 0 \<longleftrightarrow>
            year t1 = year t2 \<and> first_upper (author t1) = first_upper (author t2))
       \<and> (0 < compare_year t1 t2 \<longleftrightarrow> year_primary_less t2 t1)"
proof -
  from assms have y: "cstring (year t1)" "cstring (year t2)"
    and a: "cstring (first_upper (author t1))" "cstring (first_upper (author t2))"
    by (simp_all add: wf_thesis_def cstring_first_upper)
  note sy = strcmp_sign [OF y(2) y(1)]
  note sa = strcmp_sign [OF a]
  show ?thesis
  proof (cases "strcmp (year t2) (year t1) = 0")
    case True
    with sy have "year t1 = year t2" by simp
    with True sa show ?thesis
      by (simp add: compare_year_def year_primary_less_def Let_def toupper_first_spec)
  next
    case False
    with sy have "year t1 \<noteq> year t2" by auto
    with False sy show ?thesis
      by (auto simp: compare_year_def year_primary_less_def Let_def)
  qed
qed

text \<open>
  Claim C5. In the year-primary order of \<^verbatim>\<open>parse_theses_year.c\<close> the comparator orders two
  records by their \<^verbatim>\<open>year\<close> strings compared as raw byte strings, descending, and records
  with byte-equal years by their authors with the first character uppercased, ascending:
  the result is negative, zero or positive as the first record comes before, ties with, or
  comes after the second one in that order.
\<close>

theorem compare_year_order:
  assumes "wf_thesis t1" and "wf_thesis t2"
  shows "(compare_year t1 t2 < 0 \<longleftrightarrow> year_primary_less t1 t2)
       \<and> (compare_year t1 t2 = 0 \<longleftrightarrow>
            year t1 = year t2 \<and> first_upper (author t1) = first_upper (author t2))
       \<and> (0 < compare_year t1 t2 \<longleftrightarrow> year_primary_less t2 t1)"
  using assms by (rule compare_year_sign)

theorem compare_year_order_witness:
  "wf_thesis smith2020 \<and> wf_thesis bob2019
   \<and> compare_year smith2020 bob2019 < 0 \<and> year_primary_less smith2020 bob2019
   \<and> compare_year bob2019 smith2019 < 0 \<and> year_primary_less bob2019 smith2019"
proof -
  have wf: "wf_thesis smith2020" "wf_thesis bob2019" "wf_thesis smith2019"
    by (simp_all add: wf_thesis_def cstring_def NUL_def smith2020_def bob2019_def smith2019_def)
  have "year_primary_less smith2020 bob2019"
    by (simp add: year_primary_less_def smith2020_def bob2019_def)
  moreover have "year_primary_less bob2019 smith2019"
    by (simp add: year_primary_less_def smith2019_def bob2019_def first_upper_def upper_char_def
        less_char_def less_eq_char_def)
  ultimately show ?thesis
    using wf compare_year_order [OF wf(1) wf(2)] compare_year_order [OF wf(2) wf(3)]
    by simp
qed

section \<open>The alphabetical anchors: claim C3\<close>

lemma example_letters:
  "toupper (char_int (first_byte (author adams))) = 65"
  "toupper (char_int (first_byte (author harris))) = 72"
  "toupper (char_int (first_byte (author zimmer))) = 90"
  by (simp_all add: adams_def harris_def zimmer_def first_byte_def char_int_def toupper_def)

lemma bucket_letters:
  "char_int (first_byte (alph ! 0)) = 65" "char_int (first_byte (alph ! 1)) = 72"
  "char_int (first_byte (alph ! 2)) = 79" "char_int (first_byte (alph ! 3)) = 86"
  by (simp_all add: alph_def first_byte_def char_int_def)

lemma alpha_body_three:
  "alpha_body 0 [adams, harris, zimmer]
     = anchor ''A-G'' # table_html adams @ anchor ''H-N'' # table_html harris
       @ anchor ''O-U'' # table_html zimmer"
  using bucket_letters by (simp add: example_letters eval_nat_numeral) (simp add: alph_def)

lemma alpha_body_four:
  "alpha_body 0 [adams, zimmer, zimmer, zimmer]
     = anchor ''A-G'' # table_html adams @ anchor ''H-N'' # table_html zimmer
       @ anchor ''O-U'' # table_html zimmer @ anchor ''V-Z'' # table_html zimmer"
  using bucket_letters by (simp add: example_letters eval_nat_numeral) (simp add: alph_def)

lemma example_counts:
  "degree_counts (0, 0) [adams, harris, zimmer] = (1, 2)"
  "degree_counts (0, 0) [adams, zimmer, zimmer, zimmer] = (1, 3)"
  by (simp_all add: degree_counts_def count_degree_def adams_def harris_def zimmer_def)

lemma no_anchor_in_head: "filter (prefix ''  <a name='') alpha_head = []"
  by (simp add: alpha_head_def begin_marker_def div_open_def jump_to_def jump_link_def
      jump_link_last_def breaks_def)

text \<open>
  Claim C3. For the author-sorted records of "Adams, A.", "harris, B." and "Zimmer, C.",
  whose uppercased first letters are A, H and Z, the output should carry exactly three anchors, named "A-G",
  "H-N" and "V-Z", and none named "O-U", below a header that lists all four jump links. The
  header is written as claimed. The loop over the records writes the anchor of the bucket
  \<^verbatim>\<open>alph[j]\<close> and steps \<^verbatim>\<open>j\<close> by one as soon as a record's letter has reached the first letter of
  that bucket; it never steps over a bucket that has no record. At Zimmer's record \<^verbatim>\<open>j\<close> is
  2, so the anchor written before Zimmer's table is named "O-U", and no anchor "V-Z" is
  written: the jump link "V-Z" of the header has no target although an author of that
  bucket is in the list, and the jump link "O-U" leads to an author under Z. The lines of
  the output that begin with \<^verbatim>\<open>  <a name=\<close> are the anchors. With one record under A followed
  by three under Z, the anchors "H-N", "O-U" and "V-Z" come before the first, the second and
  the third record under Z.
\<close>

theorem three_buckets:
  \<open>write_html (map stored [adams, harris, zimmer]) 3
     = Inr ([''<!-- *** BEGIN THESIS/DISSERTATION CONTENT HERE *** --!>'' @ [NL],
             ''<div align="center">'' @ [NL, NL],
             ''  <b>Jump to:</b>&nbsp;'' @ [NL],
             ''  <a href="#A-G">A-G</a>&nbsp;|'' @ [NL],
             ''  <a href="#H-N">H-N</a>&nbsp;|'' @ [NL],
             ''  <a href="#O-U">O-U</a>&nbsp;|'' @ [NL],
             ''  <a href="#V-Z">V-Z</a>'' @ [NL, NL],
             ''  <br><br>'' @ [NL, NL]]
            @ [''  <a name=A-G></a>'' @ [NL, NL]] @ table_html adams
            @ [''  <a name=H-N></a>'' @ [NL, NL]] @ table_html harris
            @ [''  <a name=O-U></a>'' @ [NL, NL]] @ table_html zimmer
            @ summary 3 1 2)
   \<and> filter (prefix ''  <a name='') (projr (write_html (map stored [adams, harris, zimmer]) 3))
       = [''  <a name=A-G></a>'' @ [NL, NL], ''  <a name=H-N></a>'' @ [NL, NL],
          ''  <a name=O-U></a>'' @ [NL, NL]]
   \<and> map (\<lambda>t. first_byte (first_upper (author t))) [adams, harris, zimmer] = ''AHZ''
   \<and> drop 8 (projr (write_html (map stored [adams, zimmer, zimmer, zimmer]) 4))
       = [''  <a name=A-G></a>'' @ [NL, NL]] @ table_html adams
         @ [''  <a name=H-N></a>'' @ [NL, NL]] @ table_html zimmer
         @ [''  <a name=O-U></a>'' @ [NL, NL]] @ table_html zimmer
         @ [''  <a name=V-Z></a>'' @ [NL, NL]] @ table_html zimmer
         @ summary 4 1 3\<close>
proof -
  have three: "write_html (map stored [adams, harris, zimmer]) 3
      = Inr (alpha_head @ anchor ''A-G'' # table_html adams @ anchor ''H-N'' # table_html harris
          @ anchor ''O-U'' # table_html zimmer @ summary 3 1 2)"
    using write_html_run [of "[adams, harris, zimmer]" "[]"]
    by (simp add: alpha_body_three example_counts del: alpha_body.simps)
  have four: "write_html (map stored [adams, zimmer, zimmer, zimmer]) 4
      = Inr (alpha_head @ anchor ''A-G'' # table_html adams @ anchor ''H-N'' # table_html zimmer
          @ anchor ''O-U'' # table_html zimmer @ anchor ''V-Z'' # table_html zimmer
          @ summary 4 1 3)"
    using write_html_run [of "[adams, zimmer, zimmer, zimmer]" "[]"]
    by (simp add: alpha_body_four example_counts del: alpha_body.simps)
  have len: "length alpha_head = 8" by (simp add: alpha_head_def)
  have a: "prefix ''  <a name='' (anchor x)" for x by (simp add: anchor_def)
  have z: "map (\<lambda>t. first_byte (first_upper (author t))) [adams, harris, zimmer] = ''AHZ''"
    by (simp add: adams_def harris_def zimmer_def first_byte_def first_upper_def upper_char_def
        less_eq_char_def char_of_def bit_Suc_0_iff)
  show ?thesis
    unfolding three four sum.sel z
    by (simp add: no_anchor_in_table no_anchor_in_summary no_anchor_in_head a len)
       (simp add: alpha_head_def begin_marker_def div_open_def jump_to_def jump_link_def
          jump_link_last_def breaks_def anchor_def)
qed

section \<open>The first read of the year renderer: claim C9\<close>

lemma trim_line: "NUL \<notin> set s \<Longrightarrow> CR \<notin> set s \<Longrightarrow> NL \<notin> set s \<Longrightarrow> trim (line s) = s"
proof -
  assume a: "NUL \<notin> set s" "CR \<notin> set s" "NL \<notin> set s"
  have "NL \<noteq> NUL" by (simp add: NL_def NUL_def)
  have "takeWhile (\<lambda>c. c \<noteq> NUL) (s @ [NL]) = s @ takeWhile (\<lambda>c. c \<noteq> NUL) [NL]"
    by (rule takeWhile_append2) (use a in auto)
  with \<open>NL \<noteq> NUL\<close> have c: "c_str (line s) = s @ [NL]"
    by (simp add: c_str_def line_def)
  have "takeWhile (\<lambda>c. c \<notin> set [CR, NL]) (s @ [NL]) = s @ takeWhile (\<lambda>c. c \<notin> set [CR, NL]) [NL]"
    by (rule takeWhile_append2) (use a in auto)
  then have "strcspn (s @ [NL]) [CR, NL] = length s"
    by (simp add: strcspn_def)
  with c show ?thesis
    by (simp add: trim_def Let_def)
qed

lemma write_html_year_null: "write_html_year None num = Inl NullDereference"
  by (simp add: write_html_year_def field_year_def)

lemma write_html_year_indeterminate:
  "year m = None \<Longrightarrow> write_html_year (Some (m # ms)) num = Inl IndeterminateRead"
  by (simp add: write_html_year_def field_year_def)

lemma write_html_year_none:
  "year m = Some y \<Longrightarrow>
   write_html_year (Some (m # ms)) 0
     = Inr (year_head @ [year_link y] @ year_mid @ [year_anchor y, year_heading y] @ summary 0 0 0)"
  by (simp add: write_html_year_def field_year_def year_head_def year_mid_def)

lemma year_set_field: "i \<noteq> 1 \<Longrightarrow> year (set_field i s t) = year t"
  by (simp add: set_field_def)

lemma year_fill: "2 \<le> i \<Longrightarrow> year (fill i ls t) = year t"
  by (induction ls arbitrary: i t) (simp_all add: year_set_field)

lemma year_fill_two: "year (fill 0 (a # y # ls) t) = Some (trim y)"
  by (simp add: year_fill) (simp add: set_field_def)

lemma no_records: "records_of fp = [] \<Longrightarrow> leftover fp = fp"
  by (induction fp rule: records_of.induct) simp_all

lemma parse_then_write_year:
  assumes "2 \<le> length fp"
  shows "\<exists>a num out. parse_text_year fp = Inr (Some a, num) \<and> write_html_year (Some a) num = Inr out"
proof (cases "records_of fp = []")
  case True
  from assms obtain a y ls where fp: "fp = a # y # ls"
    by (cases fp; cases "tl fp") auto
  from True have "leftover fp = fp" by (rule no_records)
  with True fp have "parse_text_year fp = Inr (Some [fill 0 (a # y # ls) uninit], 0)"
    by (simp add: parse_text_year_result partial_def)
  moreover have "write_html_year (Some [fill 0 (a # y # ls) uninit]) 0
     = Inr (year_head @ [year_link (trim y)] @ year_mid
            @ [year_anchor (trim y), year_heading (trim y)] @ summary 0 0 0)"
    by (rule write_html_year_none) (rule year_fill_two)
  ultimately show ?thesis by blast
next
  case False
  from assms have "fp \<noteq> []" by auto
  then have "parse_text_year fp
     = Inr (Some (map stored (records_of fp) @ partial (leftover fp)), int (length (records_of fp)))"
    by (simp add: parse_text_year_result)
  with write_html_year_run [OF False] show ?thesis by blast
qed

text \<open>
  Claim C9, as the code has it. \<open>write_html_year\<close> reads \<^verbatim>\<open>entry[0].year\<close> before its loops,
  whatever \<open>num\<close> is. For the empty input (no read) \<open>parse_text_year\<close> returns the null
  pointer, which \<open>write_html_year\<close> dereferences. For an input that \<^verbatim>\<open>fgets\<close> delivers in one
  read it returns one allocated struct whose \<^verbatim>\<open>year\<close> was never written, which
  \<open>write_html_year\<close> reads. For every input of two reads or more the pointer is not null,
  \<^verbatim>\<open>entry[0].year\<close> holds a string and \<open>write_html_year\<close> completes: also when the input has
  fewer than seven reads and so yields no complete record. (A file of one line is one read
  when the line, with its newline, has fewer than \<^verbatim>\<open>STRLEN\<close> bytes, and more than one read
  otherwise: \<open>reads_lines\<close>, \<open>reads_long_line\<close>.)
\<close>

theorem year_first_read:
  "write_html_year None num = Inl NullDereference
   \<and> parse_text_year [] = Inr (None, 0)
   \<and> parse_text_year [raw] = Inr (Some [uninit\<lparr>author := Some (trim raw)\<rparr>], 0)
   \<and> write_html_year (Some [uninit\<lparr>author := Some (trim raw)\<rparr>]) 0 = Inl IndeterminateRead
   \<and> (2 \<le> length fp \<longrightarrow>
        (\<exists>a num out. parse_text_year fp = Inr (Some a, num) \<and> write_html_year (Some a) num = Inr out))"
proof (intro conjI impI)
  show "write_html_year None num = Inl NullDereference"
    by (rule write_html_year_null)
  show "parse_text_year [] = Inr (None, 0)"
    by (simp add: parse_text_year_result)
  show "parse_text_year [raw] = Inr (Some [uninit\<lparr>author := Some (trim raw)\<rparr>], 0)"
    by (simp add: parse_text_year_result partial_def set_field_def)
  show "write_html_year (Some [uninit\<lparr>author := Some (trim raw)\<rparr>]) 0 = Inl IndeterminateRead"
    by (rule write_html_year_indeterminate) (simp add: uninit_def)
  show "\<exists>a num out. parse_text_year fp = Inr (Some a, num) \<and> write_html_year (Some a) num = Inr out"
    if "2 \<le> length fp"
    using that by (rule parse_then_write_year)
qed

theorem year_first_read_witness:
  "2 \<le> length two_lines
   \<and> (\<exists>a num out. parse_text_year two_lines = Inr (Some a, num)
         \<and> write_html_year (Some a) num = Inr out)"
  using year_first_read [of 0 "[]" two_lines] by (simp add: two_lines_def)

theorem zero_records_not_null:
  "reads (concat two_lines) = two_lines
   \<and> records_of two_lines = []
   \<and> parse_text_year two_lines
       = Inr (Some [uninit\<lparr>author := Some ''Smith, J.'', year := Some ''2020''\<rparr>], 0)
   \<and> write_html_year (Some [uninit\<lparr>author := Some ''Smith, J.'', year := Some ''2020''\<rparr>]) 0
       = Inr (year_head @ [year_link ''2020''] @ year_mid
              @ [year_anchor ''2020'', year_heading ''2020''] @ summary 0 0 0)"
proof -
  have t: "trim (line ''Smith, J.'') = ''Smith, J.''" "trim (line ''2020'') = ''2020''"
    by (simp_all add: trim_line NUL_def CR_def NL_def)
  have "parse_text_year two_lines
       = Inr (Some [uninit\<lparr>author := Some ''Smith, J.'', year := Some ''2020''\<rparr>], 0)"
    by (simp add: parse_text_year_result two_lines_def partial_def set_field_def t)
  moreover have "write_html_year (Some [uninit\<lparr>author := Some ''Smith, J.'', year := Some ''2020''\<rparr>]) 0
       = Inr (year_head @ [year_link ''2020''] @ year_mid
              @ [year_anchor ''2020'', year_heading ''2020''] @ summary 0 0 0)"
    by (rule write_html_year_none) simp
  moreover have tl: "two_lines = map (\<lambda>l. l @ [NL]) [''Smith, J.'', ''2020'']"
    by (simp add: two_lines_def line_def)
  have "reads (concat two_lines) = two_lines"
    unfolding tl by (rule reads_lines) (simp add: NL_def STRLEN_def)
  moreover have "records_of two_lines = []" by (simp add: two_lines_def)
  ultimately show ?thesis by simp
qed

section \<open>The line after a record: claim C10\<close>



section \<open>The programs run\<close>

lemma load_all_stored: "load_all (map stored es) = Inr es"
  by (induction es) (simp_all add: load_stored)

lemma parse_text_run:
  assumes "length (records_of fp) < MAX_DOC"
  shows "\<exists>rest. parse_text fp (replicate MAX_DOC uninit)
           = Inr (int (length (records_of fp)), map stored (records_of fp) @ rest, [])
         \<and> length (map stored (records_of fp) @ rest) = MAX_DOC"
proof -
  let ?n = "length (records_of fp)"
  from assms have "0 < MAX_DOC" by simp
  from alpha_loop [OF this, of "replicate MAX_DOC uninit" fp] assms
  obtain entry' where e: "length entry' = MAX_DOC"
    "parse_loop 0 0 (replicate MAX_DOC uninit) fp = Inr (int ?n, entry', [])"
    "take ?n entry' = map stored (records_of fp)"
    by auto
  have "entry' = take ?n entry' @ drop ?n entry'" by simp
  with e(3) have "entry' = map stored (records_of fp) @ drop ?n entry'" by simp
  with e(1,2) show ?thesis
    unfolding parse_text_def by (intro exI [of _ "drop ?n entry'"]) (simp del: parse_loop.simps)
qed

lemma parse_text_full:
  assumes "MAX_DOC \<le> length (records_of fp)"
  shows "\<exists>entry'. parse_text fp (replicate MAX_DOC uninit) = Inr (- 1, entry', [too_many])"
proof -
  have "0 < MAX_DOC" by (simp add: MAX_DOC_def)
  from alpha_loop [OF this, of "replicate MAX_DOC uninit" fp] assms
  show ?thesis unfolding parse_text_def by auto
qed

lemma qsort_call_stored:
  assumes "length (qs cmp es) = length es"
  shows "qsort_call qs cmp (map stored es @ rest) (int (length es))
       = Inr (map stored (qs cmp es) @ rest)"
  by (simp add: qsort_call_def load_all_stored)

lemma main_run:
  assumes "argv = [prog, name]" and "length name < STRLEN" and "fopen name = Some fp"
    and "length (records_of fp) < MAX_DOC"
    and "mset (qsort compare (records_of fp)) = mset (records_of fp)"
  shows "main qsort fopen argv
     = Inr \<lparr>status = 0,
            stdout = alpha_head @ alpha_body 0 (qsort compare (records_of fp))
              @ summary (int (length (records_of fp)))
                  (fst (degree_counts (0, 0) (qsort compare (records_of fp))))
                  (snd (degree_counts (0, 0) (qsort compare (records_of fp)))),
            stderr = []\<rparr>"
proof -
  let ?es = "records_of fp" and ?es' = "qsort compare (records_of fp)"
  from assms(5) have len: "length ?es' = length ?es" by (metis size_mset)
  from parse_text_run [OF assms(4)] obtain rest where
    p: "parse_text fp (replicate MAX_DOC uninit) = Inr (int (length ?es), map stored ?es @ rest, [])"
    by blast
  have q: "qsort_call qsort compare (map stored ?es @ rest) (int (length ?es))
       = Inr (map stored ?es' @ rest)"
    by (rule qsort_call_stored [of qsort compare ?es rest, OF len])
  have w: "write_html (map stored ?es' @ rest) (int (length ?es))
       = Inr (alpha_head @ alpha_body 0 ?es'
            @ summary (int (length ?es)) (fst (degree_counts (0, 0) ?es')) (snd (degree_counts (0, 0) ?es')))"
    using write_html_run [of ?es' rest] by (simp only: len)
  show ?thesis
    using assms(1-3) by (simp add: main_def p q w)
qed

lemma main_full:
  assumes "argv = [prog, name]" and "length name < STRLEN" and "fopen name = Some fp"
    and "MAX_DOC \<le> length (records_of fp)"
  shows "main qsort fopen argv = Inr \<lparr>status = - 1, stdout = [], stderr = [too_many, parse_failed]\<rparr>"
proof -
  from parse_text_full [OF assms(4)] obtain entry' where
    "parse_text fp (replicate MAX_DOC uninit) = Inr (- 1, entry', [too_many])" by blast
  with assms(1-3) show ?thesis by (simp add: main_def)
qed

lemma main_year_run:
  assumes "argv = [prog, name]" and "length name < STRLEN" and "fopen name = Some fp"
    and "records_of fp \<noteq> []"
    and "mset (qsort compare_year (records_of fp)) = mset (records_of fp)"
  shows "main_year qsort fopen argv
     = Inr \<lparr>status = 0,
            stdout = (let es = qsort compare_year (records_of fp) in
               year_head @ year_link (year (hd es)) # year_nav (year (hd es)) es @ year_mid
               @ [year_anchor (year (hd es)), year_heading (year (hd es))] @ year_body (year (hd es)) es
               @ summary (int (length es)) (fst (degree_counts (0, 0) es)) (snd (degree_counts (0, 0) es))),
            stderr = []\<rparr>"
proof -
  let ?es = "records_of fp" and ?es' = "qsort compare_year (records_of fp)"
  let ?rest = "partial (leftover fp)"
  from assms(5) have len: "length ?es' = length ?es" by (metis size_mset)
  with assms(4) have ne: "?es' \<noteq> []" by auto
  from assms(4) have "fp \<noteq> []" by auto
  then have p: "parse_text_year fp = Inr (Some (map stored ?es @ ?rest), int (length ?es))"
    by (simp add: parse_text_year_result)
  have q: "qsort_call qsort compare_year (map stored ?es @ ?rest) (int (length ?es))
       = Inr (map stored ?es' @ ?rest)"
    by (rule qsort_call_stored [of qsort compare_year ?es ?rest, OF len])
  note w = write_html_year_run [OF ne, of ?rest, unfolded len]
  show ?thesis
    using assms(1-3) by (simp add: main_year_def p q w Let_def len)
qed

lemma main_year_short:
  assumes "argv = [prog, name]" and "length name < STRLEN" and "fopen name = Some (a # y # ls)"
    and "records_of (a # y # ls) = []"
    and "qsort compare_year [] = []"
  shows "main_year qsort fopen argv
     = Inr \<lparr>status = 0,
            stdout = year_head @ [year_link (trim y)] @ year_mid
              @ [year_anchor (trim y), year_heading (trim y)] @ summary 0 0 0,
            stderr = []\<rparr>"
proof -
  let ?m = "fill 0 (a # y # ls) uninit"
  from assms(4) have "leftover (a # y # ls) = a # y # ls" by (rule no_records)
  with assms(4) have p: "parse_text_year (a # y # ls) = Inr (Some [?m], 0)"
    by (simp add: parse_text_year_result partial_def)
  have q: "qsort_call qsort compare_year [?m] 0 = Inr [?m]"
    using assms(5) by (simp add: qsort_call_def)
  have w: "write_html_year (Some [?m]) 0
     = Inr (year_head @ [year_link (trim y)] @ year_mid
            @ [year_anchor (trim y), year_heading (trim y)] @ summary 0 0 0)"
    by (rule write_html_year_none) (rule year_fill_two)
  show ?thesis
    using assms(1-3) by (simp add: main_year_def p q w del: fill.simps)
qed

section \<open>Records and tables: claim C2\<close>

lemma count_table: "count_list (table_html t) table_open = 1"
  by (simp add: table_html_def table_open_def row_def degree_cell_def row_end_def
      url_cell_def table_close_def)

lemma count_alpha_body: "count_list (alpha_body j es) table_open = length es"
proof (induction es arbitrary: j)
  case Nil
  show ?case by simp
next
  case (Cons t ts)
  have "anchor a \<noteq> table_open" for a by (simp add: anchor_def table_open_def)
  with Cons show ?case by (simp add: count_table)
qed

lemma count_summary: "count_list (summary n m p) table_open = 0"
  by (simp add: summary_def table_open_def)

lemma count_alpha_head: "count_list alpha_head table_open = 0"
  by (simp add: alpha_head_def table_open_def begin_marker_def div_open_def jump_to_def
      jump_link_def jump_link_last_def breaks_def)

lemma count_year_nav: "count_list (year_nav y es) table_open = 0"
  by (induction es arbitrary: y) (simp_all add: year_link_next_def table_open_def)

lemma count_year_body: "count_list (year_body y es) table_open = length es"
proof (induction es arbitrary: y)
  case Nil
  show ?case by simp
next
  case (Cons t ts)
  have "year_anchor a \<noteq> table_open" "year_heading a \<noteq> table_open" for a
    by (simp_all add: year_anchor_def year_heading_def table_open_def)
  with Cons show ?case by (simp add: count_table)
qed

lemma count_year_frame:
  "count_list year_head table_open = 0" "count_list year_mid table_open = 0"
  "year_link a \<noteq> table_open" "year_anchor a \<noteq> table_open" "year_heading a \<noteq> table_open"
  by (simp_all add: year_head_def year_mid_def year_link_def year_anchor_def year_heading_def
      table_open_def begin_marker_def div_open_def)

lemma records_of_fourteen: "records_of fourteen_lines = [smith2020]"
proof -
  have "trim (line (author smith2020)) = author smith2020"
    "trim (line (year smith2020)) = year smith2020"
    "trim (line (title smith2020)) = title smith2020"
    "trim (line (advisor smith2020)) = advisor smith2020"
    "trim (line (affiliation smith2020)) = affiliation smith2020"
    "trim (line (degree smith2020)) = degree smith2020"
    "trim (line (url smith2020)) = url smith2020"
    by (rule trim_line; simp add: smith2020_def NUL_def CR_def NL_def)+
  then show ?thesis
    by (simp add: fourteen_lines_def record_lines_def)
qed

text \<open>
  Claim C2, as the code has it. For every input that \<^verbatim>\<open>fgets\<close> delivers in \<open>n\<close> reads (the
  list \<open>fp\<close> of length \<open>n\<close>) the number of complete records parsed is \<open>(n + 1) div 8\<close>: a record
  takes seven reads and the read after it is skipped. The parser of \<^verbatim>\<open>parse_theses.c\<close>
  returns this number when it is below \<^verbatim>\<open>MAX_DOC\<close>, and the program then writes that many
  tables; the parser of \<^verbatim>\<open>parse_theses_year.c\<close> returns it always, and the program writes
  that many tables for every input of two reads or more. (\<^verbatim>\<open>qsort\<close> is taken to permute the
  records.) The reads are the lines of the file when every line, with its newline, has
  fewer than \<^verbatim>\<open>STRLEN\<close> bytes (\<open>reads_lines\<close>); a longer line counts for as many reads as
  \<^verbatim>\<open>fgets\<close> needs for it.
\<close>

theorem records_and_tables:
  assumes "argv = [prog, name]" and "length name < STRLEN" and "fopen name = Some fp"
    and "mset (qsort compare (records_of fp)) = mset (records_of fp)"
    and "mset (qsort' compare_year (records_of fp)) = mset (records_of fp)"
  shows \<open>(\<exists>entry. parse_text_year fp = Inr (entry, int ((length fp + 1) div 8)))
     \<and> ((length fp + 1) div 8 < MAX_DOC \<longrightarrow>
          (\<exists>entry. parse_text fp (replicate MAX_DOC uninit)
                     = Inr (int ((length fp + 1) div 8), entry, []))
          \<and> (\<exists>out. main qsort fopen argv = Inr \<lparr>status = 0, stdout = out, stderr = []\<rparr>
                 \<and> count_list out
                     (''  <table style="border:1px solid black; width:600px;">'' @ [NL]) = (length fp + 1) div 8))
     \<and> (2 \<le> length fp \<longrightarrow>
          (\<exists>out. main_year qsort' fopen argv = Inr \<lparr>status = 0, stdout = out, stderr = []\<rparr>
                 \<and> count_list out
                     (''  <table style="border:1px solid black; width:600px;">'' @ [NL]) = (length fp + 1) div 8))\<close>
proof (unfold table_open_def [symmetric], intro conjI impI)
  let ?n = "(length fp + 1) div 8"
  have n: "length (records_of fp) = ?n" by (rule length_records_of)
  from assms(4) have la: "length (qsort compare (records_of fp)) = ?n"
    by (metis size_mset n)
  from assms(5) have ly: "length (qsort' compare_year (records_of fp)) = ?n"
    by (metis size_mset n)
  show "\<exists>entry. parse_text_year fp = Inr (entry, int ?n)"
    by (simp add: parse_text_year_result n)
  {
    assume lt: "?n < MAX_DOC"
    then have lt': "length (records_of fp) < MAX_DOC" by (simp only: n)
    from parse_text_run [OF lt']
    show "\<exists>entry. parse_text fp (replicate MAX_DOC uninit) = Inr (int ?n, entry, [])"
      unfolding n by blast
    from main_run [where qsort = qsort and fopen = fopen and fp = fp, OF assms(1-3) lt' assms(4)]
    show "\<exists>out. main qsort fopen argv = Inr \<lparr>status = 0, stdout = out, stderr = []\<rparr>
            \<and> count_list out table_open = ?n"
      by (simp add: count_alpha_head count_alpha_body count_summary la)
  }
  {
    assume two: "2 \<le> length fp"
    show "\<exists>out. main_year qsort' fopen argv = Inr \<lparr>status = 0, stdout = out, stderr = []\<rparr>
            \<and> count_list out table_open = ?n"
    proof (cases "records_of fp = []")
      case True
      from two obtain a y ls where fp: "fp = a # y # ls"
        by (cases fp; cases "tl fp") auto
      from True assms(5) have "qsort' compare_year [] = []" by simp
      from main_year_short [where qsort = qsort' and fopen = fopen and a = a and y = y and ls = ls,
          OF assms(1,2) assms(3) [unfolded fp] True [unfolded fp] this]
      have "main_year qsort' fopen argv
          = Inr \<lparr>status = 0, stdout = year_head @ [year_link (trim y)] @ year_mid
              @ [year_anchor (trim y), year_heading (trim y)] @ summary 0 0 0, stderr = []\<rparr>" .
      moreover from True n have "?n = 0" by simp
      ultimately show ?thesis
        by (simp add: count_year_frame count_summary)
    next
      case False
      from main_year_run [where qsort = qsort' and fopen = fopen and fp = fp,
          OF assms(1-3) False assms(5)]
      show ?thesis
        by (simp add: Let_def count_year_frame count_year_nav count_year_body count_summary ly)
    qed
  }
qed

theorem records_and_tables_witness:
  \<open>length fourteen_lines = 14
   \<and> (\<exists>entry. parse_text_year fourteen_lines = Inr (entry, 1))
   \<and> (\<exists>entry. parse_text fourteen_lines (replicate MAX_DOC uninit) = Inr (1, entry, []))
   \<and> (\<exists>out. main insertion_qsort_ptr (\<lambda>name. Some fourteen_lines) [''parse_theses'', ''theses.txt'']
               = Inr \<lparr>status = 0, stdout = out, stderr = []\<rparr>
          \<and> count_list out
                     (''  <table style="border:1px solid black; width:600px;">'' @ [NL]) = 1)
   \<and> (\<exists>out. main_year insertion_qsort (\<lambda>name. Some fourteen_lines) [''parse_theses'', ''theses.txt'']
               = Inr \<lparr>status = 0, stdout = out, stderr = []\<rparr>
          \<and> count_list out
                     (''  <table style="border:1px solid black; width:600px;">'' @ [NL]) = 1)\<close>
proof -
  have len: "length fourteen_lines = 14"
    by (simp add: fourteen_lines_def record_lines_def)
  have h: "(length fourteen_lines + 1) div 8 = 1" "(1::nat) < MAX_DOC" "2 \<le> length fourteen_lines"
    by (simp_all add: len MAX_DOC_def)
  have q: "mset (insertion_qsort_ptr compare (records_of fourteen_lines)) = mset (records_of fourteen_lines)"
    "mset (insertion_qsort compare_year (records_of fourteen_lines)) = mset (records_of fourteen_lines)"
    by (simp_all add: records_of_fourteen insertion_qsort_ptr_def insertion_qsort_def)
  have s: "length ''theses.txt'' < STRLEN" by (simp add: STRLEN_def)
  from records_and_tables [where fopen = "\<lambda>name. Some fourteen_lines" and fp = fourteen_lines
      and name = "''theses.txt''" and prog = "''parse_theses''"
      and argv = "[''parse_theses'', ''theses.txt'']"
      and qsort = insertion_qsort_ptr and qsort' = insertion_qsort] q s h len
  show ?thesis by simp
qed

theorem fourteen_lines_one_record:
  "reads (concat fourteen_lines) = fourteen_lines
   \<and> length fourteen_lines mod 7 = 0 \<and> length fourteen_lines div 7 = 2
   \<and> parse_text_year fourteen_lines
       = Inr (Some (stored smith2020 # partial (tl (record_lines smith2019))), 1)
   \<and> \<not> isl (parse_text fourteen_lines (replicate MAX_DOC uninit))
   \<and> fst (projr (parse_text fourteen_lines (replicate MAX_DOC uninit))) = 1"
proof -
  have len: "length fourteen_lines = 14"
    by (simp add: fourteen_lines_def record_lines_def)
  have lo: "leftover fourteen_lines = tl (record_lines smith2019)"
    by (simp add: fourteen_lines_def record_lines_def)
  have ne: "fourteen_lines \<noteq> []" using len by auto
  have y: "parse_text_year fourteen_lines
       = Inr (Some (stored smith2020 # partial (tl (record_lines smith2019))), 1)"
    using ne by (simp add: parse_text_year_result records_of_fourteen lo)
  have "length (records_of fourteen_lines) < MAX_DOC"
    by (simp add: records_of_fourteen MAX_DOC_def)
  from parse_text_run [OF this] obtain rest where
    "parse_text fourteen_lines (replicate MAX_DOC uninit)
       = Inr (int (length (records_of fourteen_lines)), map stored (records_of fourteen_lines) @ rest, [])"
    by blast
  then have a: "\<not> isl (parse_text fourteen_lines (replicate MAX_DOC uninit))"
    "fst (projr (parse_text fourteen_lines (replicate MAX_DOC uninit))) = 1"
    by (simp_all add: records_of_fourteen)
  have f: "fourteen_lines = map (\<lambda>l. l @ [NL])
      [author smith2020, year smith2020, title smith2020, advisor smith2020,
       affiliation smith2020, degree smith2020, url smith2020,
       author smith2019, year smith2019, title smith2019, advisor smith2019,
       affiliation smith2019, degree smith2019, url smith2019]"
    by (simp add: fourteen_lines_def record_lines_def line_def)
  have r: "reads (concat fourteen_lines) = fourteen_lines"
    unfolding f by (rule reads_lines) (simp add: smith2020_def smith2019_def NL_def STRLEN_def)
  from r len y a show ?thesis by simp
qed

section \<open>The capacity of the array: claim C4\<close>

lemma length_full_input: "length full_input = 8 * MAX_DOC"
  by (simp add: full_input_def length_concat record_lines_def sum_list_replicate)

text \<open>
  Claim C4. An input of exactly \<^verbatim>\<open>MAX_DOC\<close> = 500 records, which the array
  \<^verbatim>\<open>entry[MAX_DOC]\<close> holds, should parse and render. The check \<^verbatim>\<open>cnt >= MAX_DOC\<close> runs
  right after the 500th record has been stored and counted: \<open>parse_text\<close> reports "Too many
  entries" and returns -1, and \<open>main\<close> writes nothing to \<^verbatim>\<open>stdout\<close> and returns -1.
  An input of 499 records is the largest that \<open>parse_text\<close> accepts.
\<close>

theorem full_array_rejected:
  "length (records_of full_input) = MAX_DOC \<and> MAX_DOC = 500
   \<and> main qsort (\<lambda>name. Some full_input) [''parse_theses'', ''theses.txt'']
       = Inr \<lparr>status = - 1, stdout = [], stderr = [too_many, parse_failed]\<rparr>
   \<and> length (records_of almost_full_input) = 499
   \<and> (\<exists>entry. parse_text almost_full_input (replicate MAX_DOC uninit) = Inr (499, entry, []))"
proof -
  have n: "length (records_of full_input) = MAX_DOC"
    by (simp add: length_records_of length_full_input)
  have s: "length ''theses.txt'' < STRLEN" by (simp add: STRLEN_def)
  have "MAX_DOC \<le> length (records_of full_input)" by (simp add: n)
  from main_full [where fopen = "\<lambda>name. Some full_input" and fp = full_input
      and name = "''theses.txt''" and prog = "''parse_theses''"
      and argv = "[''parse_theses'', ''theses.txt'']" and qsort = qsort] s this n
  have full: "length (records_of full_input) = MAX_DOC \<and> MAX_DOC = 500
   \<and> main qsort (\<lambda>name. Some full_input) [''parse_theses'', ''theses.txt'']
       = Inr \<lparr>status = - 1, stdout = [], stderr = [too_many, parse_failed]\<rparr>"
    by (simp add: MAX_DOC_def)
  have "length almost_full_input = 8 * (MAX_DOC - 1)"
    by (simp add: almost_full_input_def length_concat record_lines_def sum_list_replicate)
  then have m: "length (records_of almost_full_input) = 499"
    by (simp add: length_records_of MAX_DOC_def)
  then have "length (records_of almost_full_input) < MAX_DOC" by (simp add: MAX_DOC_def)
  from parse_text_run [OF this]
  have "\<exists>entry. parse_text almost_full_input (replicate MAX_DOC uninit) = Inr (499, entry, [])"
    unfolding m by auto
  with full m show ?thesis by simp
qed

section \<open>The year links and headings: claim C6\<close>

lemma year_nav_line_links:
  "year_nav_line ys = (case ys of [] \<Rightarrow> [] | y # ys' \<Rightarrow> year_link y # map year_link_next ys')"
  by (simp add: year_nav_line_def year_link_def year_link_next_def split: list.splits)

lemma year_section_parts:
  "year_section es y
     = [year_anchor y, year_heading y] @ concat (map table_html (filter (\<lambda>t. year t = y) es))"
  by (simp add: year_section_def year_anchor_def year_heading_def)

lemma set_first_seen: "set (first_seen xs) = set xs"
  by (induction xs rule: first_seen.induct) auto

lemma distinct_first_seen: "distinct (first_seen xs)"
  by (induction xs rule: first_seen.induct) (auto simp: set_first_seen)

lemma removeAll_descending:
  fixes x :: "'a::linorder"
  shows "sorted_wrt (\<lambda>a b. b \<le> a) (x # xs) \<Longrightarrow> removeAll x xs = dropWhile (\<lambda>y. y = x) xs"
proof (induction xs)
  case Nil
  show ?case by simp
next
  case (Cons z zs)
  show ?case
  proof (cases "z = x")
    case True
    from Cons.prems have "sorted_wrt (\<lambda>a b. b \<le> a) (x # zs)" by simp
    with Cons.IH True show ?thesis by simp
  next
    case False
    from Cons.prems have "z \<le> x" and "\<forall>y \<in> set zs. y \<le> z" by simp_all
    with False have "\<forall>y \<in> set zs. y < x" by fastforce
    then have "x \<notin> set zs" by blast
    with False show ?thesis by simp
  qed
qed

lemma descending_tail:
  fixes x :: "'a::linorder"
  assumes "sorted_wrt (\<lambda>a b. b \<le> a) (x # xs)"
  shows "x \<notin> set (dropWhile (\<lambda>y. y = x) xs)"
  unfolding removeAll_descending [OF assms, symmetric] by simp

lemma first_seen_descending:
  fixes xs :: "'a::linorder list"
  shows "sorted_wrt (\<lambda>a b. b \<le> a) xs \<Longrightarrow> first_seen xs = remdups_adj xs"
proof (induction xs rule: first_seen.induct)
  case 1
  show ?case by simp
next
  case (2 x xs)
  from "2.prems" have "sorted_wrt (\<lambda>a b. b \<le> a) xs" by simp
  then have "sorted_wrt (\<lambda>a b. b \<le> a) (removeAll x xs)"
    by (simp add: removeAll_filter_not_eq sorted_wrt_filter)
  with "2.IH" have "first_seen (removeAll x xs) = remdups_adj (removeAll x xs)" by simp
  then show ?case
    by (simp add: removeAll_descending [OF "2.prems"] remdups_adj_Cons' del: remdups_adj.simps)
qed

lemma strcmp_neq_iff: "cstring a \<Longrightarrow> cstring b \<Longrightarrow> strcmp a b \<noteq> 0 \<longleftrightarrow> a \<noteq> b"
  by (simp add: strcmp_eq_iff)

lemma year_nav_remdups:
  assumes "cstring y" and "\<forall>t \<in> set es. cstring (year t)"
  shows "year_nav y es = map year_link_next (tl (remdups_adj (y # map year es)))"
  using assms
proof (induction es arbitrary: y)
  case Nil
  show ?case by simp
next
  case (Cons t ts)
  from Cons.prems have c: "cstring (year t)" and cs: "\<forall>t \<in> set ts. cstring (year t)" by simp_all
  show ?case
  proof (cases "y = year t")
    case True
    with Cons.prems(1) have "strcmp y (year t) = 0" by (simp add: strcmp_eq_iff)
    with True Cons.IH [OF Cons.prems(1) cs] show ?thesis by simp
  next
    case False
    with Cons.prems(1) c have "strcmp y (year t) \<noteq> 0" by (simp add: strcmp_eq_iff)
    moreover have "remdups_adj (year t # map year ts) = year t # tl (remdups_adj (year t # map year ts))"
      by (rule remdups_adj_Cons_alt [symmetric])
    then have "map year_link_next (remdups_adj (year t # map year ts))
        = year_link_next (year t) # map year_link_next (tl (remdups_adj (year t # map year ts)))"
      by (metis list.simps(9))
    ultimately show ?thesis
      using False Cons.IH [OF c cs] by simp
  qed
qed

lemma year_body_same:
  assumes "cstring y" and "\<forall>t \<in> set A. year t = y"
  shows "year_body y (A @ B) = concat (map table_html A) @ year_body y B"
  using assms(2)
proof (induction A)
  case Nil
  show ?case by simp
next
  case (Cons t ts)
  then have "year t = y" by simp
  with assms(1) have "strcmp y (year t) = 0" by (simp add: strcmp_eq_iff)
  with Cons show ?case by simp
qed

lemma year_body_sections:
  assumes "sorted_wrt (\<lambda>a b. year b \<le> year a) (t # ts)"
    and "\<forall>u \<in> set (t # ts). cstring (year u)"
  shows "[year_anchor (year t), year_heading (year t)] @ year_body (year t) (t # ts)
       = concat (map (year_section (t # ts)) (remdups_adj (map year (t # ts))))"
  using assms
proof (induction "length ts" arbitrary: t ts rule: less_induct)
  case less
  let ?y = "year t"
  let ?A = "takeWhile (\<lambda>u. year u = ?y) ts" and ?B = "dropWhile (\<lambda>u. year u = ?y) ts"
  from less.prems(2) have cy: "cstring ?y" by simp
  have A: "\<forall>u \<in> set ?A. year u = ?y" by (auto dest: set_takeWhileD)
  have dm: "dropWhile (\<lambda>k. k = ?y) (map year ts) = map year ?B"
    by (simp add: dropWhile_map comp_def)
  from less.prems(1) have keys: "sorted_wrt (\<lambda>a b. b \<le> a) (?y # map year ts)"
    by (simp add: sorted_wrt_map)
  from descending_tail [OF keys] have nin: "?y \<notin> set (map year ?B)"
    unfolding dm .
  have B: "\<forall>u \<in> set ?B. year u \<noteq> ?y"
  proof
    fix u
    assume "u \<in> set ?B"
    then have "year u \<in> set (map year ?B)" by simp
    with nin show "year u \<noteq> ?y" by auto
  qed
  have "year_body ?y (t # ts) = table_html t @ year_body ?y ts"
    using cy by (simp add: strcmp_eq_iff)
  also have "year_body ?y ts = year_body ?y (?A @ ?B)" by simp
  also have "\<dots> = concat (map table_html ?A) @ year_body ?y ?B"
    by (rule year_body_same [OF cy A])
  finally have body: "year_body ?y (t # ts) = concat (map table_html (t # ?A)) @ year_body ?y ?B"
    by simp
  have rd: "remdups_adj (map year (t # ts)) = ?y # remdups_adj (map year ?B)"
    by (simp add: remdups_adj_Cons' dm del: remdups_adj.simps)
  have split: "filter P ts = filter P ?A @ filter P ?B" for P
  proof -
    have "filter P ts = filter P (?A @ ?B)" by simp
    then show ?thesis by (simp only: filter_append)
  qed
  have "filter (\<lambda>u. year u = ?y) ts = filter (\<lambda>u. year u = ?y) ?A @ filter (\<lambda>u. year u = ?y) ?B"
    by (rule split)
  moreover have "filter (\<lambda>u. year u = ?y) ?A = ?A" by (rule filter_True [OF A])
  moreover have "filter (\<lambda>u. year u = ?y) ?B = []" by (rule filter_False [OF B])
  ultimately have fy: "filter (\<lambda>u. year u = ?y) (t # ts) = t # ?A" by simp
  have sec_y: "year_section (t # ts) ?y
      = [year_anchor ?y, year_heading ?y] @ concat (map table_html (t # ?A))"
    by (simp only: year_section_parts fy)
  have sec_k: "year_section (t # ts) k = year_section ?B k" if "k \<in> set (map year ?B)" for k
  proof -
    from that obtain u where u: "u \<in> set ?B" and ku: "k = year u" by auto
    from B u have "year u \<noteq> ?y" by (rule bspec)
    with ku have k: "k \<noteq> ?y" by simp
    have "filter (\<lambda>u. year u = k) ts = filter (\<lambda>u. year u = k) ?A @ filter (\<lambda>u. year u = k) ?B"
      by (rule split)
    moreover have "filter (\<lambda>u. year u = k) ?A = []"
    proof (rule filter_False)
      show "\<forall>u \<in> set ?A. \<not> year u = k"
      proof
        fix u
        assume "u \<in> set ?A"
        with A have "year u = ?y" by (rule bspec)
        with k show "\<not> year u = k" by simp
      qed
    qed
    ultimately have "filter (\<lambda>u. year u = k) (t # ts) = filter (\<lambda>u. year u = k) ?B"
      using k by simp
    then show ?thesis by (simp only: year_section_parts)
  qed
  have rest: "year_body ?y ?B = concat (map (year_section ?B) (remdups_adj (map year ?B)))"
  proof (cases ?B)
    case Nil
    show ?thesis unfolding Nil by simp
  next
    case (Cons b bs)
    from B [unfolded Cons] have "year b \<noteq> ?y" by simp
    moreover have sub: "set ?B \<subseteq> set ts" by (auto dest: set_dropWhileD)
    have "b \<in> set ?B" unfolding Cons by simp
    with sub less.prems(2) have cb: "cstring (year b)" by auto
    ultimately have ne: "strcmp ?y (year b) \<noteq> 0" using cy by (simp add: strcmp_eq_iff)
    have "length ?B \<le> length ts" by (rule length_dropWhile_le)
    from this [unfolded Cons] have len: "length bs < length ts" by simp
    from less.prems(1) have "sorted_wrt (\<lambda>a b. year b \<le> year a) ?B" by simp
    from this [unfolded Cons] have sb: "sorted_wrt (\<lambda>a b. year b \<le> year a) (b # bs)" .
    have "set (b # bs) = set ?B" unfolding Cons by simp
    with sub less.prems(2) have cbs: "\<forall>u \<in> set (b # bs). cstring (year u)" by auto
    have "year_body ?y (b # bs)
        = [year_anchor (year b), year_heading (year b)] @ table_html b @ year_body (year b) bs"
      using ne by simp
    also have "table_html b @ year_body (year b) bs = year_body (year b) (b # bs)"
      using cb by (simp add: strcmp_eq_iff)
    finally have "year_body ?y (b # bs)
        = [year_anchor (year b), year_heading (year b)] @ year_body (year b) (b # bs)" .
    with less.hyps [OF len sb cbs] show ?thesis unfolding Cons by simp
  qed
  have "concat (map (year_section (t # ts)) (remdups_adj (map year ?B)))
      = concat (map (year_section ?B) (remdups_adj (map year ?B)))"
    using sec_k by (intro arg_cong [where f = concat] map_cong refl) simp
  with rd sec_y body rest show ?case
    by simp
qed

lemma compare_year_descending:
  assumes "wf_thesis a" and "wf_thesis b" and "compare_year a b \<le> 0"
  shows "year b \<le> year a"
proof -
  from assms(1,2) have c: "cstring (year b)" "cstring (year a)" by (simp_all add: wf_thesis_def)
  note s = strcmp_sign [OF c]
  show ?thesis
  proof (cases "strcmp (year b) (year a) = 0")
    case True
    with s show ?thesis by simp
  next
    case False
    with assms(3) have "strcmp (year b) (year a) < 0"
      by (simp add: compare_year_def Let_def)
    with s have "year b < year a" by simp
    then show ?thesis by simp
  qed
qed

lemma year_output_sections:
  assumes "es \<noteq> []" and "list_all wf_thesis es"
    and "sorted_wrt (\<lambda>a b. compare_year a b \<le> 0) es"
  shows "write_html_year (Some (map stored es @ rest)) (int (length es))
       = Inr (year_head @ year_nav_line (first_seen (map year es)) @ year_mid @ year_sections es
              @ summary (int (length es)) (fst (degree_counts (0, 0) es)) (snd (degree_counts (0, 0) es)))"
proof -
  define y0 where "y0 = year (hd es)"
  from assms(1) obtain t ts where es: "es = t # ts" by (cases es) auto
  then have y0: "y0 = year t" by (simp add: y0_def)
  from assms(2) have wf: "\<forall>u \<in> set es. wf_thesis u" by (simp add: list_all_iff)
  then have cs: "\<forall>u \<in> set es. cstring (year u)" by (simp add: wf_thesis_def)
  have desc: "sorted_wrt (\<lambda>a b. year b \<le> year a) es"
  proof (rule sorted_wrt_mono_rel [OF _ assms(3)])
    fix a b
    assume "a \<in> set es" and "b \<in> set es" and "compare_year a b \<le> 0"
    with wf show "year b \<le> year a" by (intro compare_year_descending) auto
  qed
  then have keys: "sorted_wrt (\<lambda>a b. b \<le> a) (map year es)" by (simp add: sorted_wrt_map)
  have fs: "first_seen (map year es) = remdups_adj (map year es)"
    by (rule first_seen_descending [OF keys])
  from cs es have cy: "cstring (year t)" by simp
  have "year_nav (year t) es = map year_link_next (tl (remdups_adj (year t # map year es)))"
    by (rule year_nav_remdups [OF cy cs])
  also have "remdups_adj (year t # map year es) = remdups_adj (map year es)"
    by (simp add: es)
  also have "remdups_adj (map year es) = year t # tl (remdups_adj (map year es))"
    unfolding es list.map by (rule remdups_adj_Cons_alt [symmetric])
  finally have "year_nav (year t) es = map year_link_next (tl (remdups_adj (map year es)))"
    by simp
  moreover have "year_nav_line (remdups_adj (map year es))
      = year_link (year t) # map year_link_next (tl (remdups_adj (map year es)))"
  proof -
    have "remdups_adj (map year es) = year t # tl (remdups_adj (map year es))"
      unfolding es list.map by (rule remdups_adj_Cons_alt [symmetric])
    then obtain r where r: "remdups_adj (map year es) = year t # r" ..
    show ?thesis unfolding r by (simp add: year_nav_line_links)
  qed
  ultimately have nav: "year_link y0 # year_nav y0 es = year_nav_line (first_seen (map year es))"
    by (simp only: fs y0)
  have "year_sections es = concat (map (year_section es) (remdups_adj (map year es)))"
    by (simp only: year_sections_def fs)
  moreover have "[year_anchor (year t), year_heading (year t)] @ year_body (year t) (t # ts)
       = concat (map (year_section (t # ts)) (remdups_adj (map year (t # ts))))"
    by (rule year_body_sections) (use desc cs es in simp_all)
  ultimately have body: "[year_anchor y0, year_heading y0] @ year_body y0 es = year_sections es"
    by (simp only: es y0)
  have "write_html_year (Some (map stored es @ rest)) (int (length es))
     = Inr (year_head @ (year_link y0 # year_nav y0 es) @ year_mid
            @ ([year_anchor y0, year_heading y0] @ year_body y0 es)
            @ summary (int (length es)) (fst (degree_counts (0, 0) es)) (snd (degree_counts (0, 0) es)))"
    using write_html_year_run [OF assms(1), of rest] by (simp add: y0_def)
  then show ?thesis by (simp only: nav body)
qed

lemma sorted_three_ok:
  "list_all wf_thesis sorted_three"
  "sorted_wrt (\<lambda>a b. compare_year a b \<le> 0) sorted_three"
proof -
  have wf: "wf_thesis smith2020" "wf_thesis bob2019" "wf_thesis smith2019"
    by (simp_all add: wf_thesis_def cstring_def NUL_def smith2020_def bob2019_def smith2019_def)
  then show "list_all wf_thesis sorted_three" by (simp add: sorted_three_def)
  have "year_primary_less smith2020 bob2019" "year_primary_less smith2020 smith2019"
    by (simp_all add: year_primary_less_def smith2020_def bob2019_def smith2019_def)
  moreover have "year_primary_less bob2019 smith2019"
    by (simp add: year_primary_less_def smith2019_def bob2019_def first_upper_def upper_char_def
        less_char_def less_eq_char_def)
  ultimately have "compare_year smith2020 bob2019 < 0" "compare_year smith2020 smith2019 < 0"
    "compare_year bob2019 smith2019 < 0"
    using compare_year_sign wf by blast+
  then show "sorted_wrt (\<lambda>a b. compare_year a b \<le> 0) sorted_three"
    by (simp add: sorted_three_def)
qed

text \<open>
  Claim C6. For a non-empty sequence of records that is sorted by the comparator of
  \<^verbatim>\<open>parse_theses_year.c\<close>, \<open>write_html_year\<close> writes a navigation line with exactly one link per
  distinct year, in the order in which the years first appear, and then one section per
  distinct year, in the same order: the anchor and the heading of the year, followed by the
  tables of all records of that year. So an anchor and a heading are written before the
  first record and whenever the year changes, and there are as many of them as there are
  distinct years: the output holds that many jump links, that many anchors and that many
  centred headings.
\<close>

theorem year_links_and_sections:
  assumes "es \<noteq> []" and "list_all wf_thesis es"
    and "sorted_wrt (\<lambda>a b. compare_year a b \<le> 0) es"
  shows "write_html_year (Some (map stored es @ rest)) (int (length es))
       = Inr (year_head @ year_nav_line (first_seen (map year es)) @ year_mid @ year_sections es
              @ summary (int (length es)) (fst (degree_counts (0, 0) es)) (snd (degree_counts (0, 0) es)))
     \<and> distinct (first_seen (map year es))
     \<and> set (first_seen (map year es)) = year ` set es
     \<and> length (first_seen (map year es)) = card (year ` set es)
     \<and> length (filter year_link_text
          (projr (write_html_year (Some (map stored es @ rest)) (int (length es)))))
         = card (year ` set es)
     \<and> length (filter (prefix ''  <a name='')
          (projr (write_html_year (Some (map stored es @ rest)) (int (length es)))))
         = card (year ` set es)
     \<and> length (filter (prefix ''  <center><b>'')
          (projr (write_html_year (Some (map stored es @ rest)) (int (length es)))))
         = card (year ` set es)"
proof -
  let ?ys = "first_seen (map year es)"
  have "length ?ys = card (set ?ys)"
    by (rule distinct_card [symmetric]) (rule distinct_first_seen)
  then have c: "length ?ys = card (year ` set es)"
    by (simp add: set_first_seen)
  note out = year_output_sections [OF assms, of rest]
  have "length (filter year_link_text
          (projr (write_html_year (Some (map stored es @ rest)) (int (length es))))) = length ?ys"
    unfolding out sum.sel year_sections_def by (rule year_link_count)
  moreover have "length (filter (prefix ''  <a name='')
          (projr (write_html_year (Some (map stored es @ rest)) (int (length es))))) = length ?ys"
    unfolding out sum.sel year_sections_def by (rule year_anchor_count)
  moreover have "length (filter (prefix ''  <center><b>'')
          (projr (write_html_year (Some (map stored es @ rest)) (int (length es))))) = length ?ys"
    unfolding out sum.sel year_sections_def by (rule year_heading_count)
  ultimately show ?thesis
    using out c by (simp add: distinct_first_seen set_first_seen)
qed

theorem year_links_and_sections_witness:
  \<open>sorted_three \<noteq> [] \<and> list_all wf_thesis sorted_three
   \<and> sorted_wrt (\<lambda>a b. compare_year a b \<le> 0) sorted_three
   \<and> first_seen (map year sorted_three) = [''2020'', ''2019'']
   \<and> write_html_year (Some (map stored sorted_three)) 3
       = Inr (year_head
              @ [''    <a href="#2020">2020</a>&nbsp;'',
                 ''|'' @ [NL] @ ''    <a href="#2019">2019</a>&nbsp;'']
              @ year_mid
              @ [''  <a name=2020></a>'' @ [NL], ''  <center><b>2020</b></center><br>'' @ [NL, NL]]
              @ table_html smith2020
              @ [''  <a name=2019></a>'' @ [NL], ''  <center><b>2019</b></center><br>'' @ [NL, NL]]
              @ table_html bob2019 @ table_html smith2019
              @ summary 3 1 1)
   \<and> length (filter year_link_text (projr (write_html_year (Some (map stored sorted_three)) 3))) = 2
   \<and> length (filter (prefix ''  <a name='')
        (projr (write_html_year (Some (map stored sorted_three)) 3))) = 2
   \<and> length (filter (prefix ''  <center><b>'')
        (projr (write_html_year (Some (map stored sorted_three)) 3))) = 2\<close>
proof -
  have ne: "sorted_three \<noteq> []" by (simp add: sorted_three_def)
  have fs: "first_seen (map year sorted_three) = [''2020'', ''2019'']"
    by (simp add: sorted_three_def smith2020_def bob2019_def smith2019_def)
  have sec: \<open>year_sections sorted_three
      = [''  <a name=2020></a>'' @ [NL], ''  <center><b>2020</b></center><br>'' @ [NL, NL]]
        @ table_html smith2020
        @ [''  <a name=2019></a>'' @ [NL], ''  <center><b>2019</b></center><br>'' @ [NL, NL]]
        @ table_html bob2019 @ table_html smith2019\<close>
    unfolding year_sections_def fs
    by (simp add: year_section_def sorted_three_def)
       (simp add: smith2020_def bob2019_def smith2019_def)
  have cnt: "degree_counts (0, 0) sorted_three = (1, 1)"
    by (simp add: degree_counts_def count_degree_def sorted_three_def smith2020_def bob2019_def
        smith2019_def)
  have len: "int (length sorted_three) = 3" by (simp add: sorted_three_def)
  note t = year_links_and_sections [OF ne sorted_three_ok, of "[]", unfolded append_Nil2 len]
  note counts = t [THEN conjunct2, THEN conjunct2, THEN conjunct2, THEN conjunct2]
  from t have "write_html_year (Some (map stored sorted_three)) 3
       = Inr (year_head @ year_nav_line [''2020'', ''2019''] @ year_mid @ year_sections sorted_three
              @ summary 3 1 1)"
    by (simp add: fs cnt len)
  moreover from t have "card (year ` set sorted_three) = 2"
    by (simp only: fs) simp
  moreover
  have "length (filter year_link_text (projr (write_html_year (Some (map stored sorted_three)) 3)))
      = card (year ` set sorted_three)"
    "length (filter (prefix ''  <a name='') (projr (write_html_year (Some (map stored sorted_three)) 3)))
      = card (year ` set sorted_three)"
    "length (filter (prefix ''  <center><b>'') (projr (write_html_year (Some (map stored sorted_three)) 3)))
      = card (year ` set sorted_three)"
    by (rule counts [THEN conjunct1], rule counts [THEN conjunct2, THEN conjunct1],
        rule counts [THEN conjunct2, THEN conjunct2])
  ultimately show ?thesis
    using ne sorted_three_ok fs by (simp add: sec year_nav_line_def)
qed

section \<open>The cells of a table: claims C8 and C7\<close>

lemma first_byte_NUL: "cstring s \<Longrightarrow> first_byte s = NUL \<longleftrightarrow> s = []"
  by (cases s) (auto simp: first_byte_def cstring_def)

lemma concat_table_html: "cstring (url t) \<Longrightarrow> concat (table_html t) = table_text t"
  by (simp add: table_html_def table_text_def degree_row_def first_byte_NUL table_open_def
      row_def degree_cell_def row_end_def url_cell_def table_close_def)

lemma cstring_trim: "cstring (trim raw)"
proof -
  have "set (trim raw) \<subseteq> set (takeWhile (\<lambda>c. c \<noteq> NUL) raw)"
    by (simp add: trim_def c_str_def Let_def set_take_subset)
  moreover have "NUL \<notin> set (takeWhile (\<lambda>c. c \<noteq> NUL) raw)"
    by (auto dest: set_takeWhileD)
  ultimately show ?thesis by (auto simp: cstring_def)
qed

lemma wf_records_of: "r \<in> set (records_of fp) \<Longrightarrow> wf_thesis r"
  by (induction fp rule: records_of.induct) (auto simp: wf_thesis_def cstring_trim)

lemma table_in_alpha_body:
  "t \<in> set es \<Longrightarrow> \<exists>pre post. alpha_body j es = pre @ table_html t @ post"
proof (induction es arbitrary: j)
  case Nil
  then show ?case by simp
next
  case (Cons e es)
  let ?hit = "j < 4 \<and> toupper (char_int (first_byte (author e))) \<ge> char_int (first_byte (alph ! j))"
  show ?case
  proof (cases "t = e")
    case True
    show ?thesis
    proof (cases ?hit)
      case True
      with \<open>t = e\<close> have "alpha_body j (e # es) = [anchor (alph ! j)] @ table_html t @ alpha_body (j + 1) es"
        by simp
      then show ?thesis by blast
    next
      case False
      with \<open>t = e\<close> have "alpha_body j (e # es) = [] @ table_html t @ alpha_body j es"
        by auto
      then show ?thesis by blast
    qed
  next
    case False
    with Cons.prems have in_es: "t \<in> set es" by simp
    show ?thesis
    proof (cases ?hit)
      case True
      from Cons.IH [OF in_es, of "j + 1"] obtain pre post
        where "alpha_body (j + 1) es = pre @ table_html t @ post" by blast
      with True have "alpha_body j (e # es) = (anchor (alph ! j) # table_html e @ pre) @ table_html t @ post"
        by simp
      then show ?thesis by blast
    next
      case False
      from Cons.IH [OF in_es, of j] obtain pre post
        where "alpha_body j es = pre @ table_html t @ post" by blast
      with False have "alpha_body j (e # es) = (table_html e @ pre) @ table_html t @ post"
        by auto
      then show ?thesis by blast
    qed
  qed
qed

lemma table_in_year_body:
  "t \<in> set es \<Longrightarrow> \<exists>pre post. year_body y es = pre @ table_html t @ post"
proof (induction es arbitrary: y)
  case Nil
  then show ?case by simp
next
  case (Cons e es)
  show ?case
  proof (cases "t = e")
    case True
    show ?thesis
    proof (cases "strcmp y (year e) \<noteq> 0")
      case True
      with \<open>t = e\<close> have "year_body y (e # es)
          = [year_anchor (year e), year_heading (year e)] @ table_html t @ year_body (year e) es"
        by simp
      then show ?thesis by blast
    next
      case False
      with \<open>t = e\<close> have "year_body y (e # es) = [] @ table_html t @ year_body y es"
        by simp
      then show ?thesis by blast
    qed
  next
    case False
    with Cons.prems have in_es: "t \<in> set es" by simp
    show ?thesis
    proof (cases "strcmp y (year e) \<noteq> 0")
      case True
      from Cons.IH [OF in_es, of "year e"] obtain pre post
        where "year_body (year e) es = pre @ table_html t @ post" by blast
      with True have "year_body y (e # es)
          = (year_anchor (year e) # year_heading (year e) # table_html e @ pre) @ table_html t @ post"
        by simp
      then show ?thesis by blast
    next
      case False
      from Cons.IH [OF in_es, of y] obtain pre post
        where "year_body y es = pre @ table_html t @ post" by blast
      with False have "year_body y (e # es) = (table_html e @ pre) @ table_html t @ post"
        by simp
      then show ?thesis by blast
    qed
  qed
qed

lemma sublist_concat: "out = pre @ xs @ post \<Longrightarrow> sublist (concat xs) (concat out)"
  by (auto simp: sublist_def)

lemma table_in_alpha_output:
  assumes "t \<in> set es" and "cstring (url t)"
  shows "sublist (table_text t)
     (concat (alpha_head @ alpha_body 0 es @ summary n m p))"
proof -
  from table_in_alpha_body [OF assms(1), of 0] obtain pre post
    where "alpha_body 0 es = pre @ table_html t @ post" by blast
  then have "alpha_head @ alpha_body 0 es @ summary n m p
      = (alpha_head @ pre) @ table_html t @ (post @ summary n m p)" by simp
  from sublist_concat [OF this] show ?thesis
    by (simp only: concat_table_html [OF assms(2)])
qed

lemma table_in_year_output:
  assumes "t \<in> set es" and "cstring (url t)"
  shows "sublist (table_text t)
     (concat (year_head @ year_link y # year_nav y es @ year_mid
        @ [year_anchor y, year_heading y] @ year_body y es @ summary n m p))"
proof -
  from table_in_year_body [OF assms(1), of y] obtain pre post
    where "year_body y es = pre @ table_html t @ post" by blast
  then have "year_head @ year_link y # year_nav y es @ year_mid
        @ [year_anchor y, year_heading y] @ year_body y es @ summary n m p
      = (year_head @ year_link y # year_nav y es @ year_mid @ [year_anchor y, year_heading y] @ pre)
        @ table_html t @ (post @ summary n m p)" by simp
  from sublist_concat [OF this] show ?thesis
    by (simp only: concat_table_html [OF assms(2)])
qed

text \<open>
  Claim C8. For every record of the array whose \<^verbatim>\<open>url\<close> is a string, both renderers write
  the table of the record with the degree row as \<open>degree_row\<close> words it: one cell when
  \<^verbatim>\<open>url\<close> is empty, and otherwise a second cell with the link labelled "URL", whose
  \<^verbatim>\<open>href\<close> is the stored \<^verbatim>\<open>url\<close> and whose target is \<^verbatim>\<open>_blank\<close>.
\<close>

theorem url_cell_rendered:
  assumes "t \<in> set es" and "cstring (url t)"
  shows "(\<exists>out. write_html (map stored es @ rest) (int (length es)) = Inr out
            \<and> sublist (table_text t) (concat out))
       \<and> (\<exists>out. write_html_year (Some (map stored es @ rest')) (int (length es)) = Inr out
            \<and> sublist (table_text t) (concat out))"
proof
  show "\<exists>out. write_html (map stored es @ rest) (int (length es)) = Inr out
            \<and> sublist (table_text t) (concat out)"
    unfolding write_html_run by (simp only: sum.inject simp_thms ex_simps table_in_alpha_output [OF assms])
  from assms(1) have "es \<noteq> []" by auto
  then show "\<exists>out. write_html_year (Some (map stored es @ rest')) (int (length es)) = Inr out
            \<and> sublist (table_text t) (concat out)"
    unfolding write_html_year_run [OF \<open>es \<noteq> []\<close>]
    by (simp only: sum.inject simp_thms ex_simps table_in_year_output [OF assms])
qed

theorem url_cell_rendered_witness:
  \<open>smith2019 \<in> set [smith2020, smith2019] \<and> cstring (url smith2019)
   \<and> degree_row smith2020 = ''    <tr><td><b>Degree:</b> PhD</td></tr>'' @ [NL]
   \<and> degree_row smith2019 = ''    <tr><td><b>Degree:</b> MS</td><td align="right"><a href="http://example.org/smith.pdf" target="_blank">URL</a></td></tr>'' @ [NL]
   \<and> (\<exists>out. write_html (map stored [smith2020, smith2019]) 2 = Inr out
          \<and> sublist (table_text smith2019) (concat out))
   \<and> (\<exists>out. write_html_year (Some (map stored [smith2020, smith2019])) 2 = Inr out
          \<and> sublist (table_text smith2019) (concat out))\<close>
proof -
  have m: "smith2019 \<in> set [smith2020, smith2019]" by simp
  have c: "cstring (url smith2019)" by (simp add: smith2019_def cstring_def NUL_def)
  have d: \<open>degree_row smith2020 = ''    <tr><td><b>Degree:</b> PhD</td></tr>'' @ [NL]\<close>
    \<open>degree_row smith2019 = ''    <tr><td><b>Degree:</b> MS</td><td align="right"><a href="http://example.org/smith.pdf" target="_blank">URL</a></td></tr>'' @ [NL]\<close>
    by (simp_all add: degree_row_def smith2020_def smith2019_def)
  from url_cell_rendered [OF m c, of "[]" "[]"] m c d show ?thesis by simp
qed

lemma mset_place: "mset (place cmp x ys) = add_mset x (mset ys)"
  by (induction ys) simp_all

lemma mset_insertion_qsort: "mset (insertion_qsort cmp es) = mset es"
  by (induction es) (simp_all add: insertion_qsort_def mset_place)

lemma mset_insertion_qsort_ptr: "mset (insertion_qsort_ptr cmp es) = mset es"
  by (simp add: insertion_qsort_ptr_def mset_insertion_qsort)

lemma records_of_record_lines:
  assumes "\<forall>s \<in> set [author t, year t, title t, advisor t, affiliation t, degree t, url t].
             NUL \<notin> set s \<and> CR \<notin> set s \<and> NL \<notin> set s"
  shows "records_of (record_lines t @ rest) = t # records_of (drop 1 rest)"
proof -
  from assms have "trim (line (author t)) = author t" "trim (line (year t)) = year t"
    "trim (line (title t)) = title t" "trim (line (advisor t)) = advisor t"
    "trim (line (affiliation t)) = affiliation t" "trim (line (degree t)) = degree t"
    "trim (line (url t)) = url t"
    by (simp_all add: trim_line)
  then show ?thesis by (simp add: record_lines_def)
qed

lemma records_of_two_records: "records_of two_records = [bob2019, smith2019]"
proof -
  have "records_of (record_lines smith2019 @ []) = smith2019 # records_of (drop 1 [])"
    by (rule records_of_record_lines) (simp add: smith2019_def NUL_def CR_def NL_def)
  moreover have "records_of (record_lines bob2019 @ [NL] # record_lines smith2019)
      = bob2019 # records_of (drop 1 ([NL] # record_lines smith2019))"
    by (rule records_of_record_lines) (simp add: bob2019_def NUL_def CR_def NL_def)
  ultimately show ?thesis by (simp add: two_records_def)
qed

text \<open>
  Claim C7. Every record that the parser reads from the input (for \<^verbatim>\<open>parse_theses.c\<close>, from
  an input of fewer than \<^verbatim>\<open>MAX_DOC\<close> records) appears in the output of
  both programs as its table, each of the seven field values in its cell as it was read,
  neither escaped nor changed (with no cell for an empty \<^verbatim>\<open>url\<close>): the comparators uppercase
  the first letter on the way to a result only, and \<^verbatim>\<open>qsort\<close>, taken to permute the records,
  moves records without changing them.
\<close>

theorem fields_verbatim:
  assumes "argv = [prog, name]" and "length name < STRLEN" and "fopen name = Some fp"
    and "mset (qsort compare (records_of fp)) = mset (records_of fp)"
    and "mset (qsort' compare_year (records_of fp)) = mset (records_of fp)"
    and "r \<in> set (records_of fp)"
  shows "(length (records_of fp) < MAX_DOC \<longrightarrow>
          (\<exists>out. main qsort fopen argv = Inr \<lparr>status = 0, stdout = out, stderr = []\<rparr>
                 \<and> sublist (table_text r) (concat out)))
       \<and> (\<exists>out. main_year qsort' fopen argv = Inr \<lparr>status = 0, stdout = out, stderr = []\<rparr>
                 \<and> sublist (table_text r) (concat out))"
proof (intro conjI impI)
  from assms(6) have "wf_thesis r" by (rule wf_records_of)
  then have c: "cstring (url r)" by (simp add: wf_thesis_def)
  from assms(4,6) have ra: "r \<in> set (qsort compare (records_of fp))"
    by (metis set_mset_mset)
  from assms(5,6) have ry: "r \<in> set (qsort' compare_year (records_of fp))"
    by (metis set_mset_mset)
  from assms(6) have ne: "records_of fp \<noteq> []" by auto
  show "\<exists>out. main qsort fopen argv = Inr \<lparr>status = 0, stdout = out, stderr = []\<rparr>
                 \<and> sublist (table_text r) (concat out)"
    if "length (records_of fp) < MAX_DOC"
    unfolding main_run [where qsort = qsort and fopen = fopen and fp = fp, OF assms(1-3) that assms(4)]
    using table_in_alpha_output [OF ra c] by simp
  show "\<exists>out. main_year qsort' fopen argv = Inr \<lparr>status = 0, stdout = out, stderr = []\<rparr>
                 \<and> sublist (table_text r) (concat out)"
    unfolding main_year_run [where qsort = qsort' and fopen = fopen and fp = fp,
        OF assms(1-3) ne assms(5)] Let_def
    using table_in_year_output [OF ry c] by simp
qed

theorem fields_verbatim_witness:
  \<open>bob2019 \<in> set (records_of two_records) \<and> author bob2019 = ''bob smith''
   \<and> toupper_first (author bob2019) \<noteq> author bob2019
   \<and> (\<exists>out. main insertion_qsort_ptr (\<lambda>name. Some two_records) [''parse_theses'', ''theses.txt'']
               = Inr \<lparr>status = 0, stdout = out, stderr = []\<rparr>
          \<and> sublist (table_text bob2019) (concat out))
   \<and> (\<exists>out. main_year insertion_qsort (\<lambda>name. Some two_records) [''parse_theses'', ''theses.txt'']
               = Inr \<lparr>status = 0, stdout = out, stderr = []\<rparr>
          \<and> sublist (table_text bob2019) (concat out))\<close>
proof -
  have r: "bob2019 \<in> set (records_of two_records)" by (simp add: records_of_two_records)
  have a: "author bob2019 = ''bob smith''" by (simp add: bob2019_def)
  have "first_upper ''bob smith'' \<noteq> ''bob smith''"
    by (simp add: first_upper_def upper_char_def less_eq_char_def char_of_def bit_Suc_0_iff)
  then have u: "toupper_first (author bob2019) \<noteq> author bob2019"
    by (simp add: a toupper_first_spec)
  have s: "length ''theses.txt'' < STRLEN" by (simp add: STRLEN_def)
  have n: "length (records_of two_records) < MAX_DOC"
    by (simp add: records_of_two_records MAX_DOC_def)
  from fields_verbatim [where fopen = "\<lambda>name. Some two_records" and fp = two_records
      and name = "''theses.txt''" and prog = "''parse_theses''"
      and argv = "[''parse_theses'', ''theses.txt'']"
      and qsort = insertion_qsort_ptr and qsort' = insertion_qsort and r = bob2019]
    s r n a u
    mset_insertion_qsort_ptr [of compare "records_of two_records"]
    mset_insertion_qsort [of compare_year "records_of two_records"]
  show ?thesis by simp
qed

end
